theory Spec2Isabelle
  imports Main "HOL-Library.Word"
begin

unbundle bit_operations_syntax

section \<open>Data model\<close>

text \<open>
  The checksum engine of \<^verbatim>\<open>src/crc32c.cc\<close>. Machine integers are words of
  the width the source declares: \<^verbatim>\<open>uint8_t\<close>, \<^verbatim>\<open>uint32_t\<close> and
  \<^verbatim>\<open>uint64_t\<close>. A buffer is a pointer into byte-addressed memory; the memory is a
  total function from addresses to bytes and a pointer is the address as a natural number,
  so that \<^verbatim>\<open>reinterpret_cast<uintptr_t>(buf) & ALIGN64_MASK\<close> is \<open>buf mod 8\<close>.
  Lengths (\<^verbatim>\<open>size_t\<close>) are natural numbers: the source only ever decrements a
  length under a guard that keeps it non-negative, so no operation on it wraps.
\<close>

type_synonym u8 = "8 word"
type_synonym u32 = "32 word"
type_synonym u64 = "64 word"
type_synonym memory = "nat \<Rightarrow> u8"

definition CRC32C_POLYNOMIAL_REV :: u32 where
  "CRC32C_POLYNOMIAL_REV = 0x82F63B78"

definition LONG_BLOCK :: nat where
  "LONG_BLOCK = 8192"

definition SHORT_BLOCK :: nat where
  "SHORT_BLOCK = 256"

text \<open>The bytes a call reads: \<open>len\<close> bytes starting at address \<open>buf\<close>.\<close>

definition bytes_at :: "memory \<Rightarrow> nat \<Rightarrow> nat \<Rightarrow> u8 list" where
  "bytes_at mem buf len = map mem [buf..<buf + len]"

text \<open>
  \<^verbatim>\<open>*reinterpret_cast<const uint64_t*>(buffer)\<close> on the little-endian machines the
  source targets: the byte at the lowest address is the least significant.
\<close>

definition load64 :: "memory \<Rightarrow> nat \<Rightarrow> u64" where
  "load64 mem buf =
     ucast (mem buf) OR push_bit 8 (ucast (mem (buf + 1))) OR
     push_bit 16 (ucast (mem (buf + 2))) OR push_bit 24 (ucast (mem (buf + 3))) OR
     push_bit 32 (ucast (mem (buf + 4))) OR push_bit 40 (ucast (mem (buf + 5))) OR
     push_bit 48 (ucast (mem (buf + 6))) OR push_bit 56 (ucast (mem (buf + 7)))"

section \<open>Polynomial algebra over GF(2)\<close>

text \<open>
  \<^verbatim>\<open>gf2_matrix_times\<close>: the loop runs while \<open>vec > 0\<close>; \<open>n\<close> is the number of
  rows the pointer \<^verbatim>\<open>mat\<close> has been advanced by. A matrix is the list of its rows.
  The source requires the matrix to have a row for every set bit of \<open>vec\<close>; every matrix
  of this file has 32 rows and \<open>vec\<close> has 32 bits, so each \<open>mat ! n\<close> the loop reads has
  \<open>n < 32\<close>.
\<close>

function gf2_matrix_times_loop :: "u32 list \<Rightarrow> nat \<Rightarrow> u32 \<Rightarrow> u32 \<Rightarrow> u32" where
  "gf2_matrix_times_loop mat n vec sum0 =
     (if vec > 0
      then gf2_matrix_times_loop mat (n + 1) (drop_bit 1 vec)
             (if vec AND 1 \<noteq> 0 then sum0 XOR mat ! n else sum0)
      else sum0)"
  by pat_completeness auto
termination
proof (relation "measure (\<lambda>(mat, n, vec, sum0). unat vec)")
  show "wf (measure (\<lambda>(mat, n, vec, sum0). unat vec))"
    by simp
next
  fix mat :: "u32 list" and n :: nat and vec sum0 :: u32
  assume "0 < vec"
  then have "unat vec \<noteq> 0"
    by (simp add: unat_eq_0 word_greater_zero_iff)
  then have "unat vec div 2 < unat vec"
    by simp
  then show "((mat, n + 1, drop_bit 1 vec, if vec AND 1 \<noteq> 0 then sum0 XOR mat ! n else sum0),
              (mat, n, vec, sum0)) \<in> measure (\<lambda>(mat, n, vec, sum0). unat vec)"
    by (simp add: drop_bit_eq_div unat_div)
qed

definition gf2_matrix_times :: "u32 list \<Rightarrow> u32 \<Rightarrow> u32" where
  "gf2_matrix_times mat vec = gf2_matrix_times_loop mat 0 vec 0"

text \<open>\<^verbatim>\<open>gf2_matrix_square\<close> writes all 32 rows of \<^verbatim>\<open>square\<close>; the model returns them.\<close>

definition gf2_matrix_square :: "u32 list \<Rightarrow> u32 list" where
  "gf2_matrix_square mat = map (\<lambda>n. gf2_matrix_times mat (mat ! n)) [0..<32]"

text \<open>
  The rows 1..31 of the operator for one zero bit:
  \<^verbatim>\<open>for (n = 1; n < 32; n++) { odd[n] = row; row <<= 1; }\<close>
\<close>

function one_bit_rows :: "nat \<Rightarrow> u32 \<Rightarrow> u32 list" where
  "one_bit_rows n row = (if n < 32 then row # one_bit_rows (n + 1) (push_bit 1 row) else [])"
  by pat_completeness auto
termination
  by (relation "measure (\<lambda>(n, row). 32 - n)") auto

text \<open>
  The \<^verbatim>\<open>do ... while (len > 0)\<close> loop of \<^verbatim>\<open>crc32c_zeros_op\<close>. Each call of
  \<^verbatim>\<open>gf2_matrix_square\<close> overwrites its whole target, so the loop state is \<^verbatim>\<open>odd\<close>
  and \<open>len\<close>; the result is what the source leaves in \<^verbatim>\<open>even\<close>, either at the
  early return or by the final copy from \<^verbatim>\<open>odd\<close>.
\<close>

function zeros_op_loop :: "u32 list \<Rightarrow> nat \<Rightarrow> u32 list" where
  "zeros_op_loop odd0 len =
     (let even0 = gf2_matrix_square odd0;
          len1 = len div 2
      in if len1 = 0 then even0
         else let odd1 = gf2_matrix_square even0;
                  len2 = len1 div 2
              in if len2 > 0 then zeros_op_loop odd1 len2 else odd1)"
  by pat_completeness auto
termination
  by (relation "measure (\<lambda>(odd0, len). len)") auto

definition crc32c_zeros_op :: "nat \<Rightarrow> u32 list" where
  "crc32c_zeros_op len =
     (let odd0 = CRC32C_POLYNOMIAL_REV # one_bit_rows 1 1;
          even0 = gf2_matrix_square odd0;
          odd1 = gf2_matrix_square even0
      in zeros_op_loop odd1 len)"

section \<open>Shift tables\<close>

text \<open>
  The loop of \<^verbatim>\<open>crc32c_zeros\<close> that fills the four rows of 256 entries from the
  operator, and \<^verbatim>\<open>crc32c_zeros\<close> itself, which first builds the operator.
\<close>

definition zeros_table :: "u32 list \<Rightarrow> u32 list list" where
  "zeros_table op =
     [map (\<lambda>n. gf2_matrix_times op (of_nat n)) [0..<256],
      map (\<lambda>n. gf2_matrix_times op (push_bit 8 (of_nat n))) [0..<256],
      map (\<lambda>n. gf2_matrix_times op (push_bit 16 (of_nat n))) [0..<256],
      map (\<lambda>n. gf2_matrix_times op (push_bit 24 (of_nat n))) [0..<256]]"

definition crc32c_zeros :: "nat \<Rightarrow> u32 list list" where
  "crc32c_zeros len = zeros_table (crc32c_zeros_op len)"

definition crc32c_shift :: "u32 list list \<Rightarrow> u32 \<Rightarrow> u32" where
  "crc32c_shift zeros crc =
     zeros ! 0 ! unat (crc AND 0xff) XOR zeros ! 1 ! unat (drop_bit 8 crc AND 0xff) XOR
     zeros ! 2 ! unat (drop_bit 16 crc AND 0xff) XOR zeros ! 3 ! unat (drop_bit 24 crc)"

section \<open>Tables built by \<^verbatim>\<open>setup_tables\<close>\<close>

text \<open>The first loop: eight conditional shift-and-xor steps on the byte value \<open>ii\<close>.\<close>

definition table0_entry :: "nat \<Rightarrow> u32" where
  "table0_entry ii =
     fold (\<lambda>jj crc. if crc AND 1 \<noteq> 0 then drop_bit 1 crc XOR CRC32C_POLYNOMIAL_REV
                     else drop_bit 1 crc)
       [0..<8] (of_nat ii)"

definition sw_table_row0 :: "u32 list" where
  "sw_table_row0 = map table0_entry [0..<256]"

text \<open>
  The second loop: entry \<open>jj\<close> of column \<open>ii\<close> is computed from entry \<open>jj - 1\<close> of
  the same column through row 0, which the first loop has completed.
\<close>

fun table_entry :: "nat \<Rightarrow> nat \<Rightarrow> u32" where
  "table_entry 0 ii = sw_table_row0 ! ii"
| "table_entry (Suc jj) ii =
     (let crc = table_entry jj ii
      in sw_table_row0 ! unat (crc AND 0xff) XOR drop_bit 8 crc)"

definition crc32c_sw_lookup_table :: "u32 list list" where
  "crc32c_sw_lookup_table = map (\<lambda>jj. map (\<lambda>ii. table_entry jj ii) [0..<256]) [0..<8]"

definition crc32c_long :: "u32 list list" where
  "crc32c_long = crc32c_zeros LONG_BLOCK"

definition crc32c_short :: "u32 list list" where
  "crc32c_short = crc32c_zeros SHORT_BLOCK"

section \<open>Software engine\<close>

text \<open>
  The single-byte table step, written in the source as
  \<^verbatim>\<open>crc = crc32c_sw_lookup_table[0][(crc ^ *buf) & 0xff] ^ (crc >> 8)\<close>
  on the 64-bit accumulator.
\<close>

definition sw_byte :: "u64 \<Rightarrow> u8 \<Rightarrow> u64" where
  "sw_byte crc b =
     ucast (crc32c_sw_lookup_table ! 0 ! unat ((crc XOR ucast b) AND 0xff)) XOR drop_bit 8 crc"

definition crc32c_sw_inner :: "u64 \<Rightarrow> memory \<Rightarrow> nat \<Rightarrow> u64" where
  "crc32c_sw_inner crc0 mem buffer =
     (let crc = crc0 XOR load64 mem buffer
      in ucast (crc32c_sw_lookup_table ! 7 ! unat (crc AND 0xff) XOR
                crc32c_sw_lookup_table ! 6 ! unat (drop_bit 8 crc AND 0xff) XOR
                crc32c_sw_lookup_table ! 5 ! unat (drop_bit 16 crc AND 0xff) XOR
                crc32c_sw_lookup_table ! 4 ! unat (drop_bit 24 crc AND 0xff) XOR
                crc32c_sw_lookup_table ! 3 ! unat (drop_bit 32 crc AND 0xff) XOR
                crc32c_sw_lookup_table ! 2 ! unat (drop_bit 40 crc AND 0xff) XOR
                crc32c_sw_lookup_table ! 1 ! unat (drop_bit 48 crc AND 0xff) XOR
                crc32c_sw_lookup_table ! 0 ! unat (drop_bit 56 crc)))"

section \<open>Bit-serial reference\<close>

text \<open>
  The register transformations the tables and operators are meant to compute, one bit and
  one byte at a time: \<open>crc_bit\<close> divides out one bit (the conditional shift-and-xor of
  the first loop of \<^verbatim>\<open>setup_tables\<close>), \<open>zero_byte\<close> appends one zero byte to
  the register, \<open>crc_byte\<close> folds one data byte in, and \<open>crc_bytes\<close> folds a byte
  sequence in memory order.
\<close>

definition crc_bit :: "u32 \<Rightarrow> u32" where
  "crc_bit crc = (if bit crc 0 then drop_bit 1 crc XOR 0x82F63B78 else drop_bit 1 crc)"

definition zero_byte :: "u32 \<Rightarrow> u32" where
  "zero_byte crc = (crc_bit ^^ 8) crc"

definition crc_byte :: "u32 \<Rightarrow> u8 \<Rightarrow> u32" where
  "crc_byte crc b = zero_byte (crc XOR ucast b)"

definition crc_bytes :: "u32 \<Rightarrow> u8 list \<Rightarrow> u32" where
  "crc_bytes crc bs = fold (\<lambda>b c. crc_byte c b) bs crc"

text \<open>
  The checksum of a byte sequence continued from the accumulator \<open>crc_in\<close>: complement on
  entry, fold the bytes, complement on exit.
\<close>

definition crc32c_of_bytes :: "u32 \<Rightarrow> u8 list \<Rightarrow> u32" where
  "crc32c_of_bytes crc_in bs = NOT (crc_bytes (NOT crc_in) bs)"

section \<open>Hardware checksum instruction\<close>

text \<open>
  The intrinsics \<^verbatim>\<open>_mm_crc32_u8\<close> and \<^verbatim>\<open>_mm_crc32_u64\<close> are the processor's
  CRC32 instruction; they are not part of the source.
\<close>

text \<open>
  Modelled from the spec: \<^verbatim>\<open>_mm_crc32_u8\<close> is missing. The spec calls it a dedicated
  hardware checksum instruction for the CRC-32C polynomial (reversed representation
  \<^verbatim>\<open>0x82F63B78\<close>) operating on a single byte: it xors the byte into the low byte of the
  32-bit register and divides out eight bits.
\<close>

definition mm_crc32_u8 :: "u32 \<Rightarrow> u8 \<Rightarrow> u32" where
  "mm_crc32_u8 crc v = (crc_bit ^^ 8) (crc XOR ucast v)"

text \<open>
  Modelled from the spec: \<^verbatim>\<open>_mm_crc32_u64\<close> is missing. The spec calls it the same
  hardware checksum instruction operating on a 64-bit word: it folds in the eight bytes of
  the word, least significant first, takes the register from the low 32 bits of its first
  operand and returns it zero-extended to 64 bits.
\<close>

definition mm_crc32_u64 :: "u64 \<Rightarrow> u64 \<Rightarrow> u64" where
  "mm_crc32_u64 crc v =
     ucast (fold (\<lambda>k c. mm_crc32_u8 c (ucast (drop_bit (8 * k) v))) [0..<8] (ucast crc))"

text \<open>The two folds as the hardware engine writes them.\<close>

definition hw_byte :: "u64 \<Rightarrow> u8 \<Rightarrow> u64" where
  "hw_byte crc b = ucast (mm_crc32_u8 (ucast crc) b)"

definition hw_word :: "u64 \<Rightarrow> memory \<Rightarrow> nat \<Rightarrow> u64" where
  "hw_word crc mem buf = mm_crc32_u64 crc (load64 mem buf)"

section \<open>The loops shared by the engines\<close>

text \<open>
  Every engine function is built from the same loops over \<open>(buf, len, crc)\<close>; the
  software and the hardware engine differ only in the per-byte and the per-word fold, which
  are parameters here.

  \<^verbatim>\<open>while ((reinterpret_cast<uintptr_t>(buf) & ALIGN64_MASK) != 0 && len > 0)\<close>
\<close>

fun align_loop :: "(u64 \<Rightarrow> u8 \<Rightarrow> u64) \<Rightarrow> memory \<Rightarrow> nat \<Rightarrow> nat \<Rightarrow> u64 \<Rightarrow> nat \<times> nat \<times> u64" where
  "align_loop byte mem buf len crc =
     (if buf mod 8 \<noteq> 0 \<and> len > 0
      then align_loop byte mem (buf + 1) (len - 1) (byte crc (mem buf))
      else (buf, len, crc))"

text \<open>\<^verbatim>\<open>while (len >= sizeof(uint64_t))\<close>\<close>

fun words_loop :: "(u64 \<Rightarrow> memory \<Rightarrow> nat \<Rightarrow> u64) \<Rightarrow> memory \<Rightarrow> nat \<Rightarrow> nat \<Rightarrow> u64 \<Rightarrow> nat \<times> nat \<times> u64" where
  "words_loop word mem buf len crc =
     (if len \<ge> 8
      then words_loop word mem (buf + 8) (len - 8) (word crc mem buf)
      else (buf, len, crc))"

text \<open>\<^verbatim>\<open>while (len > 0)\<close>\<close>

fun bytes_loop :: "(u64 \<Rightarrow> u8 \<Rightarrow> u64) \<Rightarrow> memory \<Rightarrow> nat \<Rightarrow> nat \<Rightarrow> u64 \<Rightarrow> nat \<times> nat \<times> u64" where
  "bytes_loop byte mem buf len crc =
     (if len > 0
      then bytes_loop byte mem (buf + 1) (len - 1) (byte crc (mem buf))
      else (buf, len, crc))"

text \<open>
  The 3-lane strategy occurs with the long and with the short block width, each with its
  own shift table.
\<close>

datatype block = Long | Short

fun width :: "block \<Rightarrow> nat" where
  "width Long = LONG_BLOCK"
| "width Short = SHORT_BLOCK"

fun shift_table :: "block \<Rightarrow> u32 list list" where
  "shift_table Long = crc32c_long"
| "shift_table Short = crc32c_short"

text \<open>
  The inner \<^verbatim>\<open>do ... while (buf < end)\<close>: three lanes advance in lockstep, one 8-byte
  word each per iteration.
\<close>

function lanes_loop :: "(u64 \<Rightarrow> memory \<Rightarrow> nat \<Rightarrow> u64) \<Rightarrow> memory \<Rightarrow> nat \<Rightarrow> nat \<Rightarrow> nat \<Rightarrow>
    u64 \<Rightarrow> u64 \<Rightarrow> u64 \<Rightarrow> nat \<times> u64 \<times> u64 \<times> u64" where
  "lanes_loop word mem w buf lim crc crc1 crc2 =
     (let crc' = word crc mem buf;
          crc1' = word crc1 mem (buf + w);
          crc2' = word crc2 mem (buf + 2 * w);
          buf' = buf + 8
      in if buf' < lim then lanes_loop word mem w buf' lim crc' crc1' crc2'
         else (buf', crc', crc1', crc2'))"
  by pat_completeness auto
termination
  by (relation "measure (\<lambda>(word, mem, w, buf, lim, crc, crc1, crc2). lim - buf)") auto

text \<open>
  The outer \<^verbatim>\<open>while (len >= (3 * W))\<close>: run the lanes over one block of \<open>3 * W\<close>
  bytes and combine them with the shift table of \<open>W\<close>.
\<close>

function blocks_loop :: "(u64 \<Rightarrow> memory \<Rightarrow> nat \<Rightarrow> u64) \<Rightarrow> block \<Rightarrow> memory \<Rightarrow> nat \<Rightarrow> nat \<Rightarrow> u64 \<Rightarrow>
    nat \<times> nat \<times> u64" where
  "blocks_loop word blk mem buf len crc =
     (if len \<ge> 3 * width blk
      then (case lanes_loop word mem (width blk) buf (buf + width blk) crc 0 0 of
              (buf', crc', crc1, crc2) \<Rightarrow>
                let crc'' = ucast (crc32c_shift (shift_table blk) (ucast crc')) XOR crc1;
                    crc''' = ucast (crc32c_shift (shift_table blk) (ucast crc'')) XOR crc2
                in blocks_loop word blk mem (buf' + 2 * width blk) (len - 3 * width blk) crc''')
      else (buf, len, crc))"
  by pat_completeness auto
termination
proof (relation "measure (\<lambda>(word, blk, mem, buf, len, crc). len)")
  show "wf (measure (\<lambda>(word, blk, mem, buf, len, crc). len))"
    by simp
next
  fix word :: "u64 \<Rightarrow> memory \<Rightarrow> nat \<Rightarrow> u64" and blk :: block and mem :: memory
    and buf len :: nat and crc :: u64 and buf' :: nat and crc' crc1 crc2 x y :: u64
  assume "3 * width blk \<le> len"
  moreover have "0 < width blk"
    by (cases blk) (simp_all add: LONG_BLOCK_def SHORT_BLOCK_def)
  ultimately show "((word, blk, mem, buf' + 2 * width blk, len - 3 * width blk, y),
          (word, blk, mem, buf, len, crc)) \<in> measure (\<lambda>(word, blk, mem, buf, len, crc). len)"
    by simp
qed

definition finish :: "u64 \<Rightarrow> u32" where
  "finish crc = ucast (crc XOR 0xFFFFFFFF)"

definition crc32c_sw_1way :: "memory \<Rightarrow> nat \<Rightarrow> nat \<Rightarrow> u32 \<Rightarrow> u32" where
  "crc32c_sw_1way mem buf len crc_in =
     (case align_loop sw_byte mem buf len (ucast (NOT crc_in)) of (buf1, len1, crc1) \<Rightarrow>
      case words_loop crc32c_sw_inner mem buf1 len1 crc1 of (buf2, len2, crc2) \<Rightarrow>
      case bytes_loop sw_byte mem buf2 len2 crc2 of (buf3, len3, crc3) \<Rightarrow>
      finish crc3)"

definition crc32c_sw_short_block :: "memory \<Rightarrow> nat \<Rightarrow> nat \<Rightarrow> u32 \<Rightarrow> u32" where
  "crc32c_sw_short_block mem buf len crc_in =
     (if len < 3 * SHORT_BLOCK then crc32c_sw_1way mem buf len crc_in
      else
        case align_loop sw_byte mem buf len (ucast (NOT crc_in)) of (buf1, len1, crc1) \<Rightarrow>
        case blocks_loop crc32c_sw_inner Short mem buf1 len1 crc1 of (buf2, len2, crc2) \<Rightarrow>
        case words_loop crc32c_sw_inner mem buf2 len2 crc2 of (buf3, len3, crc3) \<Rightarrow>
        case bytes_loop sw_byte mem buf3 len3 crc3 of (buf4, len4, crc4) \<Rightarrow>
        finish crc4)"

definition crc32c_sw :: "memory \<Rightarrow> nat \<Rightarrow> nat \<Rightarrow> u32 \<Rightarrow> u32" where
  "crc32c_sw mem buf len crc_in =
     (if len < 3 * LONG_BLOCK then crc32c_sw_short_block mem buf len crc_in
      else
        case align_loop sw_byte mem buf len (ucast (NOT crc_in)) of (buf1, len1, crc1) \<Rightarrow>
        case blocks_loop crc32c_sw_inner Long mem buf1 len1 crc1 of (buf2, len2, crc2) \<Rightarrow>
        case blocks_loop crc32c_sw_inner Short mem buf2 len2 crc2 of (buf3, len3, crc3) \<Rightarrow>
        case words_loop crc32c_sw_inner mem buf3 len3 crc3 of (buf4, len4, crc4) \<Rightarrow>
        case bytes_loop sw_byte mem buf4 len4 crc4 of (buf5, len5, crc5) \<Rightarrow>
        finish crc5)"

section \<open>Hardware engine\<close>

definition crc32c_hw_1way :: "memory \<Rightarrow> nat \<Rightarrow> nat \<Rightarrow> u32 \<Rightarrow> u32" where
  "crc32c_hw_1way mem buf len crc_in =
     (case align_loop hw_byte mem buf len (ucast (NOT crc_in)) of (buf1, len1, crc1) \<Rightarrow>
      case words_loop hw_word mem buf1 len1 crc1 of (buf2, len2, crc2) \<Rightarrow>
      case bytes_loop hw_byte mem buf2 len2 crc2 of (buf3, len3, crc3) \<Rightarrow>
      finish crc3)"

definition crc32c_hw_short_block :: "memory \<Rightarrow> nat \<Rightarrow> nat \<Rightarrow> u32 \<Rightarrow> u32" where
  "crc32c_hw_short_block mem buf len crc_in =
     (if len < 3 * SHORT_BLOCK then crc32c_hw_1way mem buf len crc_in
      else
        case align_loop hw_byte mem buf len (ucast (NOT crc_in)) of (buf1, len1, crc1) \<Rightarrow>
        case blocks_loop hw_word Short mem buf1 len1 crc1 of (buf2, len2, crc2) \<Rightarrow>
        case words_loop hw_word mem buf2 len2 crc2 of (buf3, len3, crc3) \<Rightarrow>
        case bytes_loop hw_byte mem buf3 len3 crc3 of (buf4, len4, crc4) \<Rightarrow>
        finish crc4)"

definition crc32c_hw :: "memory \<Rightarrow> nat \<Rightarrow> nat \<Rightarrow> u32 \<Rightarrow> u32" where
  "crc32c_hw mem buf len crc_in =
     (if len < 3 * LONG_BLOCK then crc32c_hw_short_block mem buf len crc_in
      else
        case align_loop hw_byte mem buf len (ucast (NOT crc_in)) of (buf1, len1, crc1) \<Rightarrow>
        case blocks_loop hw_word Long mem buf1 len1 crc1 of (buf2, len2, crc2) \<Rightarrow>
        case blocks_loop hw_word Short mem buf2 len2 crc2 of (buf3, len3, crc3) \<Rightarrow>
        case words_loop hw_word mem buf3 len3 crc3 of (buf4, len4, crc4) \<Rightarrow>
        case bytes_loop hw_byte mem buf4 len4 crc4 of (buf5, len5, crc5) \<Rightarrow>
        finish crc5)"

section \<open>Capability dispatcher\<close>

text \<open>
  \<^verbatim>\<open>setup_crc32c\<close> reads the feature word that \<^verbatim>\<open>cpuid\<close> leaf 1 leaves in
  \<^verbatim>\<open>registers[2]\<close> and tests the SSE4.2 bit; the feature word is a parameter of the
  model. The public \<^verbatim>\<open>crc32c\<close> calls the function chosen.
\<close>

definition setup_crc32c :: "u32 \<Rightarrow> memory \<Rightarrow> nat \<Rightarrow> nat \<Rightarrow> u32 \<Rightarrow> u32" where
  "setup_crc32c registers2 = (if registers2 AND 0x00100000 \<noteq> 0 then crc32c_hw else crc32c_sw)"

definition crc32c :: "u32 \<Rightarrow> memory \<Rightarrow> nat \<Rightarrow> nat \<Rightarrow> u32 \<Rightarrow> u32" where
  "crc32c registers2 mem buf len crc_in = setup_crc32c registers2 mem buf len crc_in"

section \<open>Vocabulary of the proofs\<close>

text \<open>
  The value \<^verbatim>\<open>gf2_matrix_times\<close> computes for the \<open>k\<close> low bits of \<open>vec\<close>,
  with the row pointer advanced by \<open>n\<close>: the xor of the rows selected by the set bits.
\<close>

fun gf2_sum :: "u32 list \<Rightarrow> nat \<Rightarrow> nat \<Rightarrow> u32 \<Rightarrow> u32" where
  "gf2_sum mat n 0 vec = 0"
| "gf2_sum mat n (Suc k) vec =
     (if bit vec 0 then mat ! n else 0) XOR gf2_sum mat (Suc n) k (drop_bit 1 vec)"

text \<open>
  A loop state \<open>(buf, len, crc)\<close> reached from the call's \<open>(buf0, len0)\<close> and register
  \<open>c0\<close> after \<open>k\<close> bytes: the pointer has advanced by \<open>k\<close>, the length has dropped
  by \<open>k\<close>, and the accumulator is the zero-extended register after those \<open>k\<close> bytes.
\<close>

definition advanced :: "memory \<Rightarrow> nat \<Rightarrow> nat \<Rightarrow> u32 \<Rightarrow> nat \<Rightarrow> nat \<times> nat \<times> u64" where
  "advanced mem buf0 len0 c0 k = (buf0 + k, len0 - k, ucast (crc_bytes c0 (bytes_at mem buf0 k)))"

text \<open>
  The loop equations are recursive and unconditional; they are unfolded one iteration at a
  time where a proof needs them.
\<close>

declare gf2_matrix_times_loop.simps [simp del]
declare one_bit_rows.simps [simp del]
declare zeros_op_loop.simps [simp del]
declare align_loop.simps [simp del]
declare words_loop.simps [simp del]
declare bytes_loop.simps [simp del]
declare lanes_loop.simps [simp del]
declare blocks_loop.simps [simp del]

section \<open>The byte table computes the bit-serial step\<close>

lemma crc_bit_xor: "crc_bit (a XOR b) = crc_bit a XOR crc_bit b"
  by (simp add: crc_bit_def bit_xor_iff drop_bit_xor ac_simps) 

lemma crc_bit_zero: "crc_bit 0 = 0"
  by (simp add: crc_bit_def)

lemma crc_bit_pow_xor: "(crc_bit ^^ n) (a XOR b) = (crc_bit ^^ n) a XOR (crc_bit ^^ n) b"
  by (induction n arbitrary: a b) (simp_all add: crc_bit_xor funpow_swap1)

lemma crc_bit_pow_zero: "(crc_bit ^^ n) 0 = 0"
  by (induction n) (simp_all add: crc_bit_zero)

lemma crc_bit_pow_low_zero: "take_bit k y = 0 \<Longrightarrow> (crc_bit ^^ k) y = drop_bit k y"
proof (induction k arbitrary: y)
  case 0
  then show ?case by simp
next
  case (Suc k)
  have "bit (take_bit (Suc k) y) 0 = bit y 0"
    by (simp add: bit_take_bit_iff)
  with Suc.prems have b0: "\<not> bit y 0"
    by simp
  from Suc.prems have "take_bit k (drop_bit 1 y) = 0"
  proof -
    have "take_bit k (drop_bit 1 y) = drop_bit 1 (take_bit (Suc k) y)"
      by (simp add: take_bit_drop_bit)
    with Suc.prems show ?thesis by simp
  qed
  then have "(crc_bit ^^ k) (drop_bit 1 y) = drop_bit k (drop_bit 1 y)"
    by (rule Suc.IH)
  moreover have "crc_bit y = drop_bit 1 y"
    using b0 by (simp add: crc_bit_def)
  moreover have "(crc_bit ^^ Suc k) y = (crc_bit ^^ k) (crc_bit y)"
    by (simp add: funpow_swap1)
  ultimately show ?case
    by simp
qed


lemma zero_byte_split: "zero_byte x = zero_byte (take_bit 8 x) XOR drop_bit 8 x"
proof -
  have x: "x = take_bit 8 x XOR push_bit 8 (drop_bit 8 x)"
    by (rule bit_eqI) (auto simp add: bit_simps)
  have "take_bit 8 (push_bit 8 (drop_bit 8 x)) = 0"
    by (simp add: take_bit_push_bit)
  then have "(crc_bit ^^ 8) (push_bit 8 (drop_bit 8 x)) = drop_bit 8 (push_bit 8 (drop_bit 8 x))"
    by (rule crc_bit_pow_low_zero)
  also have "\<dots> = drop_bit 8 x"
    by (rule bit_eqI) (auto simp add: bit_simps dest: bit_imp_le_length)
  finally have "zero_byte (push_bit 8 (drop_bit 8 x)) = drop_bit 8 x"
    by (simp add: zero_byte_def)
  moreover have "zero_byte x = zero_byte (take_bit 8 x) XOR zero_byte (push_bit 8 (drop_bit 8 x))"
    unfolding zero_byte_def crc_bit_pow_xor [symmetric] using x by simp
  ultimately show ?thesis by simp
qed

lemma table0_entry_eq: "table0_entry ii = zero_byte (of_nat ii)"
proof -
  have step: "(\<lambda>jj crc. if crc AND 1 \<noteq> 0 then drop_bit 1 crc XOR CRC32C_POLYNOMIAL_REV
                     else drop_bit 1 crc) = (\<lambda>jj::nat. crc_bit)"
    by (intro ext) (simp add: crc_bit_def CRC32C_POLYNOMIAL_REV_def and_one_eq bit_0 mod_2_eq_odd)
  have "fold (\<lambda>jj::nat. crc_bit) xs c = (crc_bit ^^ length xs) c" for xs c
    by (induction xs arbitrary: c) (simp_all add: funpow_swap1)
  then show ?thesis
    by (simp add: table0_entry_def step zero_byte_def)
qed

lemma sw_table_row0_nth: "i < 256 \<Longrightarrow> sw_table_row0 ! i = zero_byte (of_nat i)"
  by (simp add: sw_table_row0_def table0_entry_eq)

lemma unat_and_ff: "unat (c AND 0xff :: 'a::len word) < 256"
proof -
  have "(0xff :: 'a word) = mask 8"
    by (simp add: mask_eq_exp_minus_1)
  then have "c AND 0xff = take_bit 8 c"
    by (simp add: take_bit_eq_mask)
  then show ?thesis
    by (simp add: unsigned_take_bit_eq take_bit_nat_less_exp [of 8, simplified])
qed

lemma and_ff_take_bit: "(c :: 'a::len word) AND 0xff = take_bit 8 c"
proof -
  have "(0xff :: 'a word) = mask 8"
    by (simp add: mask_eq_exp_minus_1)
  then show ?thesis
    by (simp add: take_bit_eq_mask)
qed

lemma sw_table_step: "sw_table_row0 ! unat (c AND 0xff) XOR drop_bit 8 c = zero_byte c"
proof -
  have "sw_table_row0 ! unat (c AND 0xff) = zero_byte (of_nat (unat (c AND 0xff)))"
    by (rule sw_table_row0_nth) (rule unat_and_ff)
  also have "\<dots> = zero_byte (take_bit 8 c)"
    by (simp add: and_ff_take_bit)
  finally show ?thesis
    by (simp add: zero_byte_split [of c])
qed

lemma table_entry_eq: "ii < 256 \<Longrightarrow> table_entry jj ii = (zero_byte ^^ Suc jj) (of_nat ii)"
  by (induction jj) (simp_all add: sw_table_row0_nth sw_table_step Let_def)

lemma sw_lookup_nth:
  "jj < 8 \<Longrightarrow> ii < 256 \<Longrightarrow> crc32c_sw_lookup_table ! jj ! ii = (zero_byte ^^ Suc jj) (of_nat ii)"
  by (simp add: crc32c_sw_lookup_table_def table_entry_eq del: funpow.simps)

lemma crc_byte_xor: "crc_byte (a XOR b) v = crc_byte a v XOR zero_byte b"
  by (simp add: crc_byte_def zero_byte_def crc_bit_pow_xor [symmetric] ac_simps)

lemma zero_byte_xor: "zero_byte (a XOR b) = zero_byte a XOR zero_byte b"
  by (simp add: zero_byte_def crc_bit_pow_xor)

lemma zero_byte_zero: "zero_byte 0 = 0"
  by (simp add: zero_byte_def crc_bit_pow_zero)

lemma zero_byte_pow_xor: "(zero_byte ^^ n) (a XOR b) = (zero_byte ^^ n) a XOR (zero_byte ^^ n) b"
  by (induction n arbitrary: a b) (simp_all add: zero_byte_xor funpow_swap1)

lemma zero_byte_pow_zero: "(zero_byte ^^ n) 0 = 0"
  by (induction n) (simp_all add: zero_byte_zero)

lemma crc_bytes_append: "crc_bytes c (xs @ ys) = crc_bytes (crc_bytes c xs) ys"
  by (simp add: crc_bytes_def)

lemma crc_bytes_xor: "crc_bytes (a XOR b) bs = crc_bytes a bs XOR (zero_byte ^^ length bs) b"
proof (induction bs arbitrary: a b)
  case Nil
  then show ?case by (simp add: crc_bytes_def)
next
  case (Cons x xs)
  have "crc_bytes (a XOR b) (x # xs) = crc_bytes (crc_byte a x XOR zero_byte b) xs"
    by (simp add: crc_bytes_def crc_byte_xor)
  also have "\<dots> = crc_bytes (crc_byte a x) xs XOR (zero_byte ^^ length xs) (zero_byte b)"
    by (rule Cons.IH)
  finally show ?case
    by (simp add: crc_bytes_def funpow_swap1)
qed

lemma mm_crc32_u8_eq: "mm_crc32_u8 c v = crc_byte c v"
  by (simp add: mm_crc32_u8_def crc_byte_def zero_byte_def)

lemma ucast_ucast_32: "(ucast (ucast (c :: u32) :: u64) :: u32) = c"
  by (rule bit_eqI) (auto simp add: bit_simps)

lemma hw_byte_eq: "hw_byte (ucast c) v = ucast (crc_byte c v)"
  by (simp add: hw_byte_def mm_crc32_u8_eq ucast_ucast_32)

lemma sw_lookup_u64:
  "jj < 8 \<Longrightarrow> crc32c_sw_lookup_table ! jj ! unat ((w :: u64) AND 0xff) = (zero_byte ^^ Suc jj) (ucast (take_bit 8 w))"
proof -
  assume jj: "jj < 8"
  have "crc32c_sw_lookup_table ! jj ! unat (w AND 0xff) = (zero_byte ^^ Suc jj) (of_nat (unat (w AND 0xff)))"
    using jj by (rule sw_lookup_nth) (rule unat_and_ff)
  then show ?thesis
    by (simp add: and_ff_take_bit)
qed

lemma sw_byte_eq: "sw_byte (ucast c) v = ucast (crc_byte c v)"
proof -
  have 1: "(ucast (take_bit 8 (ucast c XOR ucast v :: u64)) :: u32) = take_bit 8 (c XOR ucast v)"
    by (rule bit_eqI) (auto simp add: bit_simps)
  have 2: "drop_bit 8 (ucast c :: u64) = ucast (drop_bit 8 c)"
    by (simp add: ucast_drop_bit_eq)
  have 3: "crc32c_sw_lookup_table ! 0 ! unat (w AND 0xff) = zero_byte (ucast (take_bit 8 w))" for w :: u64
    using sw_lookup_u64 [of 0 w] by simp
  have "sw_byte (ucast c) v = ucast (zero_byte (take_bit 8 (c XOR ucast v))) XOR ucast (drop_bit 8 c)"
    unfolding sw_byte_def 2 3 1 ..
  also have "\<dots> = ucast (zero_byte (take_bit 8 (c XOR ucast v)) XOR drop_bit 8 (c XOR ucast v))"
  proof -
    have "drop_bit 8 (c XOR ucast v) = drop_bit 8 c"
      by (rule bit_eqI) (auto simp add: bit_simps dest: bit_imp_le_length)
    then show ?thesis
      by (simp add: unsigned_xor_eq)
  qed
  also have "\<dots> = ucast (crc_byte c v)"
    by (simp add: crc_byte_def zero_byte_split [of "c XOR ucast v"])
  finally show ?thesis .
qed


lemma load64_bytes:
  "(ucast (load64 mem buf) :: u8) = mem buf"
  "(ucast (drop_bit 8 (load64 mem buf)) :: u8) = mem (buf + 1)"
  "(ucast (drop_bit 16 (load64 mem buf)) :: u8) = mem (buf + 2)"
  "(ucast (drop_bit 24 (load64 mem buf)) :: u8) = mem (buf + 3)"
  "(ucast (drop_bit 32 (load64 mem buf)) :: u8) = mem (buf + 4)"
  "(ucast (drop_bit 40 (load64 mem buf)) :: u8) = mem (buf + 5)"
  "(ucast (drop_bit 48 (load64 mem buf)) :: u8) = mem (buf + 6)"
  "(ucast (drop_bit 56 (load64 mem buf)) :: u8) = mem (buf + 7)"
  by (rule bit_eqI, auto simp add: load64_def bit_simps dest: bit_imp_le_length)+

lemma zero_byte_pow4:
  "(zero_byte ^^ 4) c =
     (zero_byte ^^ 4) (take_bit 8 c) XOR (zero_byte ^^ 3) (take_bit 8 (drop_bit 8 c)) XOR
     (zero_byte ^^ 2) (take_bit 8 (drop_bit 16 c)) XOR zero_byte (take_bit 8 (drop_bit 24 c))"
proof -
  have 0: "zero_byte c = zero_byte (take_bit 8 c) XOR drop_bit 8 c"
    by (rule zero_byte_split)
  have 1: "zero_byte (drop_bit 8 c) = zero_byte (take_bit 8 (drop_bit 8 c)) XOR drop_bit 16 c"
    using zero_byte_split [of "drop_bit 8 c"] by simp
  have 2: "zero_byte (drop_bit 16 c) = zero_byte (take_bit 8 (drop_bit 16 c)) XOR drop_bit 24 c"
    using zero_byte_split [of "drop_bit 16 c"] by simp
  have 3: "zero_byte (drop_bit 24 c) = zero_byte (take_bit 8 (drop_bit 24 c))"
    using zero_byte_split [of "drop_bit 24 c"] by simp
  have "(zero_byte ^^ 4) c = zero_byte (zero_byte (zero_byte (zero_byte c)))"
    by (simp add: eval_nat_numeral)
  also have "\<dots> = zero_byte (zero_byte (zero_byte (zero_byte (take_bit 8 c)))) XOR
      zero_byte (zero_byte (zero_byte (take_bit 8 (drop_bit 8 c)))) XOR
      zero_byte (zero_byte (take_bit 8 (drop_bit 16 c))) XOR zero_byte (take_bit 8 (drop_bit 24 c))"
    by (simp only: 0 zero_byte_xor 1 2 3)
  finally show ?thesis
    by (simp add: eval_nat_numeral)
qed

lemma bytes_at_8:
  "bytes_at mem buf 8 = [mem buf, mem (buf + 1), mem (buf + 2), mem (buf + 3),
                         mem (buf + 4), mem (buf + 5), mem (buf + 6), mem (buf + 7)]"
proof -
  have "[buf..<buf + 8] = [buf, buf + 1, buf + 2, buf + 3, buf + 4, buf + 5, buf + 6, buf + 7]"
    by (simp add: upt_conv_Cons)
  then show ?thesis
    by (simp add: bytes_at_def)
qed

lemma byte_xor_low:
  "n \<le> 24 \<Longrightarrow> (ucast (take_bit 8 (drop_bit n (ucast c XOR w :: u64))) :: u32) =
     take_bit 8 (drop_bit n (c :: u32)) XOR ucast (ucast (drop_bit n w) :: u8)"
  by (rule bit_eqI) (auto simp add: bit_simps dest: bit_imp_le_length)

lemma byte_xor_high:
  "32 \<le> n \<Longrightarrow> (ucast (take_bit 8 (drop_bit n (ucast c XOR w :: u64))) :: u32) =
     ucast (ucast (drop_bit n w) :: u8)"
  for c :: u32
  by (rule bit_eqI) (auto simp add: bit_simps dest: bit_imp_le_length)

lemma drop_bit_56_and: "drop_bit 56 x = drop_bit 56 x AND 0xff" for x :: u64
  unfolding and_ff_take_bit
  by (rule bit_eqI) (auto simp add: bit_simps dest: bit_imp_le_length)

lemma zero_byte_nest4:
  "zero_byte (zero_byte (zero_byte (zero_byte c))) =
     zero_byte (zero_byte (zero_byte (zero_byte (take_bit 8 c)))) XOR
     zero_byte (zero_byte (zero_byte (take_bit 8 (drop_bit 8 c)))) XOR
     zero_byte (zero_byte (take_bit 8 (drop_bit 16 c))) XOR zero_byte (take_bit 8 (drop_bit 24 c))"
  using zero_byte_pow4 [of c] by (simp add: eval_nat_numeral)

lemma zero_byte_pows:
  "(zero_byte ^^ 2) x = zero_byte (zero_byte x)"
  "(zero_byte ^^ 3) x = zero_byte (zero_byte (zero_byte x))"
  "(zero_byte ^^ 4) x = zero_byte (zero_byte (zero_byte (zero_byte x)))"
  "(zero_byte ^^ 5) x = zero_byte (zero_byte (zero_byte (zero_byte (zero_byte x))))"
  "(zero_byte ^^ 6) x = zero_byte (zero_byte (zero_byte (zero_byte (zero_byte (zero_byte x)))))"
  "(zero_byte ^^ 7) x =
     zero_byte (zero_byte (zero_byte (zero_byte (zero_byte (zero_byte (zero_byte x))))))"
  "(zero_byte ^^ 8) x =
     zero_byte (zero_byte (zero_byte (zero_byte (zero_byte (zero_byte (zero_byte (zero_byte x)))))))"
  by (simp_all add: eval_nat_numeral)

lemma sw_inner_eq: "crc32c_sw_inner (ucast c) mem buf = ucast (crc_bytes c (bytes_at mem buf 8))"
proof -
  define x where "x = ucast c XOR load64 mem buf"
  have l7: "crc32c_sw_lookup_table ! 7 ! unat (x AND 0xff) =
      (zero_byte ^^ 8) (take_bit 8 c XOR ucast (mem buf))"
    using sw_lookup_u64 [of 7 x] byte_xor_low [of 0 c "load64 mem buf"] load64_bytes(1) [of mem buf]
    by (simp add: x_def)
  have l6: "crc32c_sw_lookup_table ! 6 ! unat (drop_bit 8 x AND 0xff) =
      (zero_byte ^^ 7) (take_bit 8 (drop_bit 8 c) XOR ucast (mem (buf + 1)))"
    using sw_lookup_u64 [of 6 "drop_bit 8 x"] byte_xor_low [of 8 c "load64 mem buf"]
      load64_bytes(2) [of mem buf]
    by (simp add: x_def)
  have l5: "crc32c_sw_lookup_table ! 5 ! unat (drop_bit 16 x AND 0xff) =
      (zero_byte ^^ 6) (take_bit 8 (drop_bit 16 c) XOR ucast (mem (buf + 2)))"
    using sw_lookup_u64 [of 5 "drop_bit 16 x"] byte_xor_low [of 16 c "load64 mem buf"]
      load64_bytes(3) [of mem buf]
    by (simp add: x_def)
  have l4: "crc32c_sw_lookup_table ! 4 ! unat (drop_bit 24 x AND 0xff) =
      (zero_byte ^^ 5) (take_bit 8 (drop_bit 24 c) XOR ucast (mem (buf + 3)))"
    using sw_lookup_u64 [of 4 "drop_bit 24 x"] byte_xor_low [of 24 c "load64 mem buf"]
      load64_bytes(4) [of mem buf]
    by (simp add: x_def)
  have l3: "crc32c_sw_lookup_table ! 3 ! unat (drop_bit 32 x AND 0xff) =
      (zero_byte ^^ 4) (ucast (mem (buf + 4)))"
    using sw_lookup_u64 [of 3 "drop_bit 32 x"] byte_xor_high [of 32 c "load64 mem buf"]
      load64_bytes(5) [of mem buf]
    by (simp add: x_def)
  have l2: "crc32c_sw_lookup_table ! 2 ! unat (drop_bit 40 x AND 0xff) =
      (zero_byte ^^ 3) (ucast (mem (buf + 5)))"
    using sw_lookup_u64 [of 2 "drop_bit 40 x"] byte_xor_high [of 40 c "load64 mem buf"]
      load64_bytes(6) [of mem buf]
    by (simp add: x_def)
  have l1: "crc32c_sw_lookup_table ! 1 ! unat (drop_bit 48 x AND 0xff) =
      (zero_byte ^^ 2) (ucast (mem (buf + 6)))"
    using sw_lookup_u64 [of 1 "drop_bit 48 x"] byte_xor_high [of 48 c "load64 mem buf"]
      load64_bytes(7) [of mem buf]
    by (simp add: x_def zero_byte_pows)
  have l0: "crc32c_sw_lookup_table ! 0 ! unat (drop_bit 56 x) =
      zero_byte (ucast (mem (buf + 7)))"
    using sw_lookup_u64 [of 0 "drop_bit 56 x"] byte_xor_high [of 56 c "load64 mem buf"]
      load64_bytes(8) [of mem buf] drop_bit_56_and [of x]
    by (simp add: x_def)
  have lhs: "crc32c_sw_inner (ucast c) mem buf =
     ucast ((zero_byte ^^ 8) (take_bit 8 c XOR ucast (mem buf)) XOR
            (zero_byte ^^ 7) (take_bit 8 (drop_bit 8 c) XOR ucast (mem (buf + 1))) XOR
            (zero_byte ^^ 6) (take_bit 8 (drop_bit 16 c) XOR ucast (mem (buf + 2))) XOR
            (zero_byte ^^ 5) (take_bit 8 (drop_bit 24 c) XOR ucast (mem (buf + 3))) XOR
            (zero_byte ^^ 4) (ucast (mem (buf + 4))) XOR
            (zero_byte ^^ 3) (ucast (mem (buf + 5))) XOR
            (zero_byte ^^ 2) (ucast (mem (buf + 6))) XOR
            zero_byte (ucast (mem (buf + 7))))"
    unfolding crc32c_sw_inner_def Let_def x_def [symmetric] l7 l6 l5 l4 l3 l2 l1 l0 ..
  have rhs: "crc_bytes c (bytes_at mem buf 8) =
            (zero_byte ^^ 8) (take_bit 8 c XOR ucast (mem buf)) XOR
            (zero_byte ^^ 7) (take_bit 8 (drop_bit 8 c) XOR ucast (mem (buf + 1))) XOR
            (zero_byte ^^ 6) (take_bit 8 (drop_bit 16 c) XOR ucast (mem (buf + 2))) XOR
            (zero_byte ^^ 5) (take_bit 8 (drop_bit 24 c) XOR ucast (mem (buf + 3))) XOR
            (zero_byte ^^ 4) (ucast (mem (buf + 4))) XOR
            (zero_byte ^^ 3) (ucast (mem (buf + 5))) XOR
            (zero_byte ^^ 2) (ucast (mem (buf + 6))) XOR
            zero_byte (ucast (mem (buf + 7)))"
    unfolding bytes_at_8 
    by (simp add: crc_bytes_def crc_byte_def zero_byte_xor zero_byte_pows zero_byte_nest4 [of c] ac_simps)
  show ?thesis
    by (simp only: lhs rhs)
qed

section \<open>Matrices over GF(2) and the zero operators\<close>

lemma gf2_sum_zero: "gf2_sum mat n k 0 = 0"
  by (induction k arbitrary: n) simp_all

lemma gf2_sum_xor: "gf2_sum mat n k (a XOR b) = gf2_sum mat n k a XOR gf2_sum mat n k b"
  by (induction k arbitrary: n a b) (simp_all add: bit_xor_iff ac_simps)

lemma and_1_bit: "(vec AND 1 \<noteq> 0) = bit vec 0" for vec :: u32
  by (simp add: and_one_eq bit_0 mod_2_eq_odd)

lemma gf2_loop_zero: "gf2_matrix_times_loop mat n 0 s = s"
  by (subst gf2_matrix_times_loop.simps) simp

lemma gf2_loop_sum:
  "drop_bit k vec = 0 \<Longrightarrow> gf2_matrix_times_loop mat n vec s = s XOR gf2_sum mat n k vec"
proof (induction k arbitrary: n vec s)
  case 0
  then show ?case by (simp add: gf2_loop_zero)
next
  case (Suc k)
  show ?case
  proof (cases "vec = 0")
    case True
    then show ?thesis by (simp add: gf2_sum_zero gf2_loop_zero)
  next
    case False
    then have pos: "vec > 0"
      by (simp add: word_greater_zero_iff)
    from Suc.prems have "drop_bit k (drop_bit 1 vec) = 0"
      by simp
    then have "gf2_matrix_times_loop mat (n + 1) (drop_bit 1 vec) t = t XOR gf2_sum mat (n + 1) k (drop_bit 1 vec)" for t
      by (rule Suc.IH)
    then show ?thesis
      using pos by (subst gf2_matrix_times_loop.simps) (simp add: and_1_bit xor.assoc)
  qed
qed

lemma gf2_matrix_times_sum: "gf2_matrix_times mat vec = gf2_sum mat 0 32 vec"
proof -
  have "drop_bit 32 vec = 0"
    by (rule bit_eqI) (auto simp add: bit_simps dest: bit_imp_le_length)
  then show ?thesis
    by (simp add: gf2_matrix_times_def gf2_loop_sum [of 32])
qed

lemma gf2_matrix_times_xor:
  "gf2_matrix_times mat (a XOR b) = gf2_matrix_times mat a XOR gf2_matrix_times mat b"
  by (simp only: gf2_matrix_times_sum gf2_sum_xor)

lemma gf2_matrix_times_zero: "gf2_matrix_times mat 0 = 0"
  by (simp only: gf2_matrix_times_sum gf2_sum_zero)

lemma gf2_matrix_square_nth: "n < 32 \<Longrightarrow> gf2_matrix_square mat ! n = gf2_matrix_times mat (mat ! n)"
  by (simp add: gf2_matrix_square_def)

lemma length_gf2_matrix_square: "length (gf2_matrix_square mat) = 32"
  by (simp add: gf2_matrix_square_def)

lemma gf2_sum_square:
  "n + k \<le> 32 \<Longrightarrow> gf2_sum (gf2_matrix_square mat) n k v = gf2_matrix_times mat (gf2_sum mat n k v)"
  by (induction k arbitrary: n v)
     (simp_all add: gf2_matrix_times_zero gf2_matrix_times_xor gf2_matrix_square_nth)

lemma gf2_matrix_times_square:
  "gf2_matrix_times (gf2_matrix_square mat) v = gf2_matrix_times mat (gf2_matrix_times mat v)"
  by (simp add: gf2_matrix_times_sum [of "gf2_matrix_square mat"] gf2_sum_square)
     (simp add: gf2_matrix_times_sum)

lemma square_represents:
  assumes "\<And>v. gf2_matrix_times mat v = (crc_bit ^^ m) v"
  shows "gf2_matrix_times (gf2_matrix_square mat) v = (crc_bit ^^ (2 * m)) v"
  by (simp add: gf2_matrix_times_square assms mult_2 funpow_add)

lemma one_bit_rows_nth:
  "n \<le> 32 \<Longrightarrow> i < 32 - n \<Longrightarrow> one_bit_rows n row ! i = push_bit i row"
proof (induction n row arbitrary: i rule: one_bit_rows.induct)
  case (1 n row)
  show ?case
  proof (cases i)
    case 0
    with "1.prems" show ?thesis
      by (subst one_bit_rows.simps) simp
  next
    case (Suc j)
    from "1.prems" have n: "n < 32"
      by simp
    with Suc "1.prems" have "one_bit_rows (n + 1) (push_bit 1 row) ! j = push_bit j (push_bit 1 row)"
      by (intro "1.IH") simp_all
    with Suc n show ?thesis
      by (subst one_bit_rows.simps) (simp add: push_bit_push_bit)
  qed
qed

lemma take_bit_Suc_xor:
  "take_bit (Suc k) w = of_bool (bit w 0) XOR take_bit k (drop_bit 1 w) * 2" for w :: u32
proof (rule bit_eqI)
  fix i
  show "bit (take_bit (Suc k) w) i = bit (of_bool (bit w 0) XOR take_bit k (drop_bit 1 w) * 2) i"
    by (cases i) (auto simp add: bit_simps bit_0 even_xor_iff bit_double_Suc_iff mult.commute dest: bit_imp_le_length)
qed

lemma odd_rows_sum:
  "n + k \<le> 31 \<Longrightarrow>
   gf2_sum (CRC32C_POLYNOMIAL_REV # one_bit_rows 1 1) (Suc n) k w = push_bit n (take_bit k w)"
proof (induction k arbitrary: n w)
  case 0
  then show ?case by simp
next
  case (Suc k)
  let ?M = "CRC32C_POLYNOMIAL_REV # one_bit_rows 1 1"
  from Suc.prems have row: "?M ! Suc n = push_bit n 1"
    by (simp add: one_bit_rows_nth)
  from Suc.prems have ih: "gf2_sum ?M (Suc (Suc n)) k (drop_bit 1 w)
      = push_bit (Suc n) (take_bit k (drop_bit 1 w))"
    using Suc.IH [of "Suc n" "drop_bit 1 w"] by simp
  have "gf2_sum ?M (Suc n) (Suc k) w =
      (if bit w 0 then ?M ! Suc n else 0) XOR gf2_sum ?M (Suc (Suc n)) k (drop_bit 1 w)"
    by (rule gf2_sum.simps)
  also have "\<dots> = push_bit n (of_bool (bit w 0)) XOR push_bit n (take_bit k (drop_bit 1 w) * 2)"
    unfolding row ih by simp
  also have "\<dots> = push_bit n (take_bit (Suc k) w)"
    unfolding take_bit_Suc_xor [of k w] by (simp only: push_bit_xor)
  finally show ?case .
qed

lemma odd_row_represents:
  "gf2_matrix_times (CRC32C_POLYNOMIAL_REV # one_bit_rows 1 1) v = crc_bit v"
proof -
  let ?M = "CRC32C_POLYNOMIAL_REV # one_bit_rows 1 1"
  have "gf2_sum ?M 0 (Suc 31) v = (if bit v 0 then ?M ! 0 else 0) XOR gf2_sum ?M (Suc 0) 31 (drop_bit 1 v)"
    by (rule gf2_sum.simps)
  moreover have "gf2_sum ?M (Suc 0) 31 (drop_bit 1 v) = push_bit 0 (take_bit 31 (drop_bit 1 v))"
    by (rule odd_rows_sum) simp
  moreover have "take_bit 31 (drop_bit 1 v) = drop_bit 1 v"
    by (rule bit_eqI) (auto simp add: bit_simps dest: bit_imp_le_length)
  ultimately show ?thesis
    by (simp add: gf2_matrix_times_sum crc_bit_def CRC32C_POLYNOMIAL_REV_def xor.commute)
qed

lemma zeros_op_loop_represents:
  assumes "\<And>v. gf2_matrix_times odd0 v = (crc_bit ^^ m) v"
    and "2 ^ k \<le> len" and "len < 2 ^ Suc k"
  shows "gf2_matrix_times (zeros_op_loop odd0 len) v = (crc_bit ^^ (2 * m * 2 ^ k)) v"
  using assms
proof (induction k arbitrary: odd0 len m v rule: less_induct)
  case (less k)
  have even0: "gf2_matrix_times (gf2_matrix_square odd0) v = (crc_bit ^^ (2 * m)) v" for v
    using less.prems(1) by (rule square_represents)
  have odd1: "gf2_matrix_times (gf2_matrix_square (gf2_matrix_square odd0)) v = (crc_bit ^^ (2 * (2 * m))) v" for v
    using even0 by (rule square_represents)
  consider "k = 0" | "k = 1" | "k \<ge> 2" by linarith
  then show ?case
  proof cases
    case 1
    with less.prems have "len = 1" by simp
    then show ?thesis using 1
      by (subst zeros_op_loop.simps) (simp add: even0)
  next
    case 2
    with less.prems have "len div 2 = 1"
      by simp
    then show ?thesis using 2
      by (subst zeros_op_loop.simps) (simp add: odd1 Let_def)
  next
    case 3
    then obtain j where k: "k = Suc (Suc j)"
      by (metis One_nat_def Suc_1 Suc_le_D Suc_le_mono)
    with less.prems have lo: "2 ^ j \<le> len div 2 div 2" and hi: "len div 2 div 2 < 2 ^ Suc j"
      by (simp_all add: div_mult2_eq [symmetric] less_mult_imp_div_less le_div_geq) 
    have "gf2_matrix_times (zeros_op_loop (gf2_matrix_square (gf2_matrix_square odd0)) (len div 2 div 2)) v
        = (crc_bit ^^ (2 * (2 * (2 * m)) * 2 ^ j)) v"
      using k odd1 lo hi by (intro less.IH) simp_all
    moreover from lo have b: "len div 2 div 2 > 0"
      by (simp add: Suc_le_eq [symmetric] order_trans [OF _ lo])
    then have a: "len div 2 \<noteq> 0"
      by (intro notI) simp
    from a b have "zeros_op_loop odd0 len =
        zeros_op_loop (gf2_matrix_square (gf2_matrix_square odd0)) (len div 2 div 2)"
      by (subst zeros_op_loop.simps) (simp only: Let_def if_not_P if_P if_False)
    ultimately show ?thesis using k
      by (simp add: mult.assoc)
  qed
qed


lemma funpow_crc_bit_bytes: "(crc_bit ^^ (8 * n)) = (zero_byte ^^ n)"
proof -
  have z: "zero_byte = crc_bit ^^ 8"
    by (rule ext) (simp add: zero_byte_def)
  show ?thesis
    unfolding z funpow_mult ..
qed

lemma crc_bytes_zeros: "crc_bytes c (replicate n 0) = (zero_byte ^^ n) c"
  by (induction n arbitrary: c) (simp_all add: crc_bytes_def crc_byte_def funpow_swap1)

lemma crc32c_zeros_op_represents:
  assumes "2 ^ k \<le> len" and "len < 2 ^ Suc k"
  shows "gf2_matrix_times (crc32c_zeros_op len) v = (zero_byte ^^ (2 ^ k)) v"
proof -
  let ?odd = "CRC32C_POLYNOMIAL_REV # one_bit_rows 1 1"
  have "(crc_bit ^^ 1) v = crc_bit v" for v
    by simp
  then have "gf2_matrix_times ?odd v = (crc_bit ^^ 1) v" for v
    by (simp only: odd_row_represents)
  then have "gf2_matrix_times (gf2_matrix_square ?odd) v = (crc_bit ^^ (2 * 1)) v" for v
    by (rule square_represents)
  then have "gf2_matrix_times (gf2_matrix_square (gf2_matrix_square ?odd)) v = (crc_bit ^^ (2 * (2 * 1))) v" for v
    by (rule square_represents)
  then have "gf2_matrix_times (zeros_op_loop (gf2_matrix_square (gf2_matrix_square ?odd)) len) v
      = (crc_bit ^^ (2 * (2 * (2 * 1)) * 2 ^ k)) v"
    using assms by (rule zeros_op_loop_represents)
  then show ?thesis
    by (simp add: crc32c_zeros_op_def Let_def funpow_crc_bit_bytes [symmetric])
qed

lemma length_zeros_op_loop: "length (zeros_op_loop odd0 len) = 32"
proof (induction odd0 len rule: zeros_op_loop.induct)
  case (1 odd0 len)
  then show ?case
    by (subst zeros_op_loop.simps) (simp add: Let_def length_gf2_matrix_square)
qed

lemma length_crc32c_zeros_op: "length (crc32c_zeros_op len) = 32"
  by (simp add: crc32c_zeros_op_def Let_def length_zeros_op_loop)

section \<open>Applying an operator through its shift table\<close>

lemma word_bytes_xor:
  "crc = take_bit 8 crc XOR push_bit 8 (take_bit 8 (drop_bit 8 crc)) XOR
         push_bit 16 (take_bit 8 (drop_bit 16 crc)) XOR push_bit 24 (drop_bit 24 crc)" for crc :: u32
  by (rule bit_eqI) (auto simp add: bit_simps dest: bit_imp_le_length)

lemma unat_drop_bit_24: "unat (drop_bit 24 crc) < 256" for crc :: u32
proof -
  have "drop_bit 24 crc = take_bit 8 (drop_bit 24 crc)"
    by (rule bit_eqI) (auto simp add: bit_simps dest: bit_imp_le_length)
  then have "unat (drop_bit 24 crc) = take_bit 8 (unat (drop_bit 24 crc))"
    by (metis unsigned_take_bit_eq)
  then show ?thesis
    using take_bit_nat_less_exp [of 8 "unat (drop_bit 24 crc)"] by simp
qed

lemma crc32c_shift_zeros_table:
  "crc32c_shift (zeros_table op) crc = gf2_matrix_times op crc"
proof -
  have 0: "zeros_table op ! 0 ! unat (crc AND 0xff) = gf2_matrix_times op (take_bit 8 crc)"
    using unat_and_ff [of crc] by (simp add: zeros_table_def and_ff_take_bit)
  have 1: "zeros_table op ! 1 ! unat (drop_bit 8 crc AND 0xff) =
      gf2_matrix_times op (push_bit 8 (take_bit 8 (drop_bit 8 crc)))"
    using unat_and_ff [of "drop_bit 8 crc"] by (simp add: zeros_table_def and_ff_take_bit)
  have 2: "zeros_table op ! 2 ! unat (drop_bit 16 crc AND 0xff) =
      gf2_matrix_times op (push_bit 16 (take_bit 8 (drop_bit 16 crc)))"
    using unat_and_ff [of "drop_bit 16 crc"] by (simp add: zeros_table_def and_ff_take_bit)
  have 3: "zeros_table op ! 3 ! unat (drop_bit 24 crc) =
      gf2_matrix_times op (push_bit 24 (drop_bit 24 crc))"
    using unat_drop_bit_24 [of crc] by (simp add: zeros_table_def)
  have "crc32c_shift (zeros_table op) crc =
      gf2_matrix_times op (take_bit 8 crc XOR push_bit 8 (take_bit 8 (drop_bit 8 crc)) XOR
         push_bit 16 (take_bit 8 (drop_bit 16 crc)) XOR push_bit 24 (drop_bit 24 crc))"
    unfolding crc32c_shift_def 0 1 2 3 gf2_matrix_times_xor ..
  then show ?thesis
    using word_bytes_xor [of crc] by simp
qed

lemma shift_table_zero_bytes:
  "crc32c_shift (shift_table blk) c = (zero_byte ^^ width blk) c"
proof (cases blk)
  case Long
  have "gf2_matrix_times (crc32c_zeros_op 8192) c = (zero_byte ^^ (2 ^ 13)) c"
    by (rule crc32c_zeros_op_represents) simp_all
  then show ?thesis using Long
    by (simp add: crc32c_long_def crc32c_zeros_def LONG_BLOCK_def crc32c_shift_zeros_table)
next
  case Short
  have "gf2_matrix_times (crc32c_zeros_op 256) c = (zero_byte ^^ (2 ^ 8)) c"
    by (rule crc32c_zeros_op_represents) simp_all
  then show ?thesis using Short
    by (simp add: crc32c_short_def crc32c_zeros_def SHORT_BLOCK_def crc32c_shift_zeros_table)
qed

section \<open>Evaluating the reference on concrete registers\<close>

lemma zero_byte_unfold:
  "zero_byte x = crc_bit (crc_bit (crc_bit (crc_bit (crc_bit (crc_bit (crc_bit (crc_bit x)))))))"
  by (simp add: zero_byte_def eval_nat_numeral)

section \<open>The 64-bit accumulator carries a 32-bit register\<close>

lemma fold_sw_byte:
  "fold (\<lambda>b c. sw_byte c b) bs (ucast c) = ucast (crc_bytes c bs)"
  by (induction bs arbitrary: c) (simp_all add: crc_bytes_def sw_byte_eq)

lemma upper_zero_ucast: "drop_bit 32 crc = 0 \<Longrightarrow> ucast (ucast crc :: u32) = crc" for crc :: u64
proof (rule bit_eqI)
  fix n
  assume a: "drop_bit 32 crc = 0"
  have "bit (drop_bit 32 crc) (n - 32) = bit crc (32 + (n - 32))"
    by (simp add: bit_drop_bit_eq)
  with a have "n \<ge> 32 \<Longrightarrow> \<not> bit crc n"
    by simp
  then show "bit (ucast (ucast crc :: u32) :: u64) n = bit crc n"
    by (cases "n < 32") (auto simp add: bit_simps)
qed

lemma drop_bit_32_ucast: "drop_bit 32 (ucast c :: u64) = 0" for c :: u32
  by (rule bit_eqI) (auto simp add: bit_simps dest: bit_imp_le_length)

section \<open>The loops advance the bit-serial register\<close>

lemma length_bytes_at: "length (bytes_at mem buf n) = n"
  by (simp add: bytes_at_def)

lemma bytes_at_0: "bytes_at mem buf 0 = []"
  by (simp add: bytes_at_def)

lemma bytes_at_add: "bytes_at mem buf (m + n) = bytes_at mem buf m @ bytes_at mem (buf + m) n"
proof -
  have "[buf..<buf + m + n] = [buf..<buf + m] @ [buf + m..<buf + m + n]"
    by (rule upt_add_eq_append) simp
  then show ?thesis
    by (simp only: bytes_at_def map_append add.assoc)
qed

lemma bytes_at_Suc: "bytes_at mem buf (Suc k) = bytes_at mem buf k @ [mem (buf + k)]"
  by (simp add: bytes_at_def)

lemma crc_bytes_Nil: "crc_bytes c [] = c"
  by (simp add: crc_bytes_def)

lemma crc_bytes_snoc: "crc_bytes c (bs @ [b]) = crc_byte (crc_bytes c bs) b"
  by (simp add: crc_bytes_def)

lemma advanced_0: "advanced mem buf len c 0 = (buf, len, ucast c)"
  by (simp add: advanced_def bytes_at_0 crc_bytes_Nil)

lemma advanced_byte:
  assumes "\<And>c v. byte (ucast c) v = ucast (crc_byte c v)"
  shows "(buf0 + k + 1, len0 - k - 1, byte (ucast (crc_bytes c0 (bytes_at mem buf0 k))) (mem (buf0 + k)))
    = advanced mem buf0 len0 c0 (Suc k)"
  by (simp add: advanced_def assms bytes_at_Suc crc_bytes_snoc)

lemma advanced_word:
  assumes "\<And>c mem buf. word (ucast c) mem buf = ucast (crc_bytes c (bytes_at mem buf 8))"
  shows "(buf0 + k + 8, len0 - k - 8, word (ucast (crc_bytes c0 (bytes_at mem buf0 k))) mem (buf0 + k))
    = advanced mem buf0 len0 c0 (k + 8)"
  by (simp add: advanced_def assms bytes_at_add crc_bytes_append)

lemma align_loop_advances:
  assumes byte: "\<And>c v. byte (ucast c) v = ucast (crc_byte c v)"
  shows "k \<le> len0 \<Longrightarrow> \<exists>k'. k \<le> k' \<and> k' \<le> len0 \<and>
    align_loop byte mem (buf0 + k) (len0 - k) (ucast (crc_bytes c0 (bytes_at mem buf0 k)))
      = advanced mem buf0 len0 c0 k'"
proof (induction "len0 - k" arbitrary: k)
  case 0
  then have "align_loop byte mem (buf0 + k) (len0 - k) (ucast (crc_bytes c0 (bytes_at mem buf0 k)))
      = advanced mem buf0 len0 c0 k"
    by (subst align_loop.simps) (simp add: advanced_def)
  with 0 show ?case by blast
next
  case (Suc d)
  show ?case
  proof (cases "(buf0 + k) mod 8 \<noteq> 0")
    case True
    from Suc have k: "Suc k \<le> len0" and d: "d = len0 - Suc k"
      by simp_all
    from Suc.hyps(1) [OF d k] obtain k' where k': "Suc k \<le> k'" "k' \<le> len0"
      and eq: "align_loop byte mem (buf0 + Suc k) (len0 - Suc k)
                 (ucast (crc_bytes c0 (bytes_at mem buf0 (Suc k)))) = advanced mem buf0 len0 c0 k'"
      by blast
    have "align_loop byte mem (buf0 + k) (len0 - k) (ucast (crc_bytes c0 (bytes_at mem buf0 k)))
        = align_loop byte mem (buf0 + k + 1) (len0 - k - 1)
            (byte (ucast (crc_bytes c0 (bytes_at mem buf0 k))) (mem (buf0 + k)))"
      using True k by (subst align_loop.simps) simp
    also have "\<dots> = advanced mem buf0 len0 c0 k'"
      using eq advanced_byte [of byte buf0 k len0 c0 mem, OF byte] by (simp add: advanced_def)
    finally show ?thesis
      using k' by (intro exI [of _ k']) simp
  next
    case False
    then have "align_loop byte mem (buf0 + k) (len0 - k) (ucast (crc_bytes c0 (bytes_at mem buf0 k)))
      = advanced mem buf0 len0 c0 k"
      by (subst align_loop.simps) (simp add: advanced_def)
    with Suc.prems show ?thesis by blast
  qed
qed

lemma bytes_loop_advances:
  assumes byte: "\<And>c v. byte (ucast c) v = ucast (crc_byte c v)"
  shows "k \<le> len0 \<Longrightarrow>
    bytes_loop byte mem (buf0 + k) (len0 - k) (ucast (crc_bytes c0 (bytes_at mem buf0 k)))
      = advanced mem buf0 len0 c0 len0"
proof (induction "len0 - k" arbitrary: k)
  case 0
  then show ?case
    by (subst bytes_loop.simps) (simp add: advanced_def)
next
  case (Suc d)
  from Suc have k: "Suc k \<le> len0" and d: "d = len0 - Suc k"
    by simp_all
  have "bytes_loop byte mem (buf0 + k) (len0 - k) (ucast (crc_bytes c0 (bytes_at mem buf0 k)))
      = bytes_loop byte mem (buf0 + k + 1) (len0 - k - 1)
          (byte (ucast (crc_bytes c0 (bytes_at mem buf0 k))) (mem (buf0 + k)))"
    using k by (subst bytes_loop.simps) simp
  also have "\<dots> = advanced mem buf0 len0 c0 len0"
    using Suc.hyps(1) [OF d k] advanced_byte [of byte buf0 k len0 c0 mem, OF byte]
    by (simp add: advanced_def)
  finally show ?case .
qed

lemma words_loop_advances:
  assumes word: "\<And>c mem buf. word (ucast c) mem buf = ucast (crc_bytes c (bytes_at mem buf 8))"
  shows "k \<le> len0 \<Longrightarrow> \<exists>k'. k \<le> k' \<and> k' \<le> len0 \<and>
    words_loop word mem (buf0 + k) (len0 - k) (ucast (crc_bytes c0 (bytes_at mem buf0 k)))
      = advanced mem buf0 len0 c0 k'"
proof (induction "len0 - k" arbitrary: k rule: less_induct)
  case less
  show ?case
  proof (cases "len0 - k \<ge> 8")
    case True
    then have k: "k + 8 \<le> len0" and d: "len0 - (k + 8) < len0 - k"
      by simp_all
    from less.hyps [OF d k] obtain k' where k': "k + 8 \<le> k'" "k' \<le> len0"
      and eq: "words_loop word mem (buf0 + (k + 8)) (len0 - (k + 8))
                 (ucast (crc_bytes c0 (bytes_at mem buf0 (k + 8)))) = advanced mem buf0 len0 c0 k'"
      by blast
    have "words_loop word mem (buf0 + k) (len0 - k) (ucast (crc_bytes c0 (bytes_at mem buf0 k)))
        = words_loop word mem (buf0 + k + 8) (len0 - k - 8)
            (word (ucast (crc_bytes c0 (bytes_at mem buf0 k))) mem (buf0 + k))"
      using True by (subst words_loop.simps) simp
    also have "\<dots> = advanced mem buf0 len0 c0 k'"
      using eq advanced_word [of word buf0 k len0 c0 mem, OF word]
      by (simp add: advanced_def add.assoc)
    finally show ?thesis
      using k' by (intro exI [of _ k']) simp
  next
    case False
    then have "words_loop word mem (buf0 + k) (len0 - k) (ucast (crc_bytes c0 (bytes_at mem buf0 k)))
      = advanced mem buf0 len0 c0 k"
      by (subst words_loop.simps) (simp add: advanced_def)
    with less.prems show ?thesis by blast
  qed
qed


lemma lanes_loop_run:
  assumes word: "\<And>c mem buf. word (ucast c) mem buf = ucast (crc_bytes c (bytes_at mem buf 8))"
  shows "lanes_loop word mem w buf (buf + 8 * Suc n) (ucast c) (ucast c1) (ucast c2) =
    (buf + 8 * Suc n,
     ucast (crc_bytes c (bytes_at mem buf (8 * Suc n))),
     ucast (crc_bytes c1 (bytes_at mem (buf + w) (8 * Suc n))),
     ucast (crc_bytes c2 (bytes_at mem (buf + 2 * w) (8 * Suc n))))"
proof (induction n arbitrary: buf c c1 c2)
  case 0
  show ?case
    by (subst lanes_loop.simps) (simp add: word Let_def)
next
  case (Suc n)
  have split: "bytes_at mem b (8 * Suc (Suc n)) = bytes_at mem b 8 @ bytes_at mem (b + 8) (8 * Suc n)" for b
    using bytes_at_add [of mem b 8 "8 * Suc n"] by simp
  have "lanes_loop word mem w buf (buf + 8 * Suc (Suc n)) (ucast c) (ucast c1) (ucast c2) =
      lanes_loop word mem w (buf + 8) (buf + 8 + 8 * Suc n)
        (ucast (crc_bytes c (bytes_at mem buf 8)))
        (ucast (crc_bytes c1 (bytes_at mem (buf + w) 8)))
        (ucast (crc_bytes c2 (bytes_at mem (buf + 2 * w) 8)))"
    by (subst lanes_loop.simps) (simp add: word Let_def add_ac)
  also have "\<dots> = (buf + 8 + 8 * Suc n,
     ucast (crc_bytes (crc_bytes c (bytes_at mem buf 8)) (bytes_at mem (buf + 8) (8 * Suc n))),
     ucast (crc_bytes (crc_bytes c1 (bytes_at mem (buf + w) 8)) (bytes_at mem (buf + 8 + w) (8 * Suc n))),
     ucast (crc_bytes (crc_bytes c2 (bytes_at mem (buf + 2 * w) 8)) (bytes_at mem (buf + 8 + 2 * w) (8 * Suc n))))"
    by (rule Suc.IH)
  also have "\<dots> = (buf + 8 * Suc (Suc n),
     ucast (crc_bytes c (bytes_at mem buf (8 * Suc (Suc n)))),
     ucast (crc_bytes c1 (bytes_at mem (buf + w) (8 * Suc (Suc n)))),
     ucast (crc_bytes c2 (bytes_at mem (buf + 2 * w) (8 * Suc (Suc n)))))"
    unfolding split crc_bytes_append by (simp add: add_ac)
  finally show ?case .
qed

lemma width_words: "\<exists>n. width blk = 8 * Suc n"
proof (cases blk)
  case Long
  then show ?thesis
    by (intro exI [of _ 1023]) (simp add: LONG_BLOCK_def)
next
  case Short
  then show ?thesis
    by (intro exI [of _ 31]) (simp add: SHORT_BLOCK_def)
qed

lemma combine_lane:
  assumes "length bs = width blk"
  shows "ucast (crc32c_shift (shift_table blk) (ucast (ucast a :: u64))) XOR (ucast (crc_bytes 0 bs) :: u64)
     = ucast (crc_bytes a bs)"
proof -
  have "crc_bytes (0 XOR a) bs = crc_bytes 0 bs XOR (zero_byte ^^ length bs) a"
    by (rule crc_bytes_xor)
  then have "crc_bytes a bs = crc32c_shift (shift_table blk) a XOR crc_bytes 0 bs"
    by (simp add: assms shift_table_zero_bytes xor.commute)
  then show ?thesis
    by (simp add: ucast_ucast_32 unsigned_xor_eq)
qed

lemma block_step:
  assumes word: "\<And>c mem buf. word (ucast c) mem buf = ucast (crc_bytes c (bytes_at mem buf 8))"
  shows "(case lanes_loop word mem (width blk) buf (buf + width blk) (ucast c) 0 0 of
              (buf', crc', crc1, crc2) \<Rightarrow>
                let crc'' = ucast (crc32c_shift (shift_table blk) (ucast crc')) XOR crc1;
                    crc''' = ucast (crc32c_shift (shift_table blk) (ucast crc'')) XOR crc2
                in f (buf' + 2 * width blk) crc''')
     = f (buf + 3 * width blk) (ucast (crc_bytes c (bytes_at mem buf (3 * width blk))))"
proof -
  obtain n where n: "width blk = 8 * Suc n"
    using width_words by blast
  let ?w = "width blk"
  have lanes: "lanes_loop word mem ?w buf (buf + ?w) (ucast c) 0 0 =
    (buf + ?w,
     ucast (crc_bytes c (bytes_at mem buf ?w)),
     ucast (crc_bytes 0 (bytes_at mem (buf + ?w) ?w)),
     ucast (crc_bytes 0 (bytes_at mem (buf + 2 * ?w) ?w)))"
    using lanes_loop_run [of word mem ?w buf n c 0 0, OF word] unfolding n [symmetric] by simp
  have three: "bytes_at mem buf (3 * ?w) =
      bytes_at mem buf ?w @ bytes_at mem (buf + ?w) ?w @ bytes_at mem (buf + 2 * ?w) ?w"
    using bytes_at_add [of mem buf ?w "?w + ?w"] bytes_at_add [of mem "buf + ?w" ?w ?w]
    by (simp add: mult_2 add.assoc numeral_3_eq_3)
  show ?thesis
    unfolding lanes three crc_bytes_append
    by (simp add: Let_def combine_lane length_bytes_at add.assoc)
qed

lemma blocks_loop_advances:
  assumes word: "\<And>c mem buf. word (ucast c) mem buf = ucast (crc_bytes c (bytes_at mem buf 8))"
  shows "k \<le> len0 \<Longrightarrow> \<exists>k'. k \<le> k' \<and> k' \<le> len0 \<and>
    blocks_loop word blk mem (buf0 + k) (len0 - k) (ucast (crc_bytes c0 (bytes_at mem buf0 k)))
      = advanced mem buf0 len0 c0 k'"
proof (induction "len0 - k" arbitrary: k rule: less_induct)
  case less
  let ?w = "width blk"
  have pos: "0 < ?w"
    using width_words [of blk] by auto
  show ?case
  proof (cases "len0 - k \<ge> 3 * ?w")
    case True
    with pos have k: "k + 3 * ?w \<le> len0" and d: "len0 - (k + 3 * ?w) < len0 - k"
      by simp_all
    from less.hyps [OF d k] obtain k' where k': "k + 3 * ?w \<le> k'" "k' \<le> len0"
      and eq: "blocks_loop word blk mem (buf0 + (k + 3 * ?w)) (len0 - (k + 3 * ?w))
                 (ucast (crc_bytes c0 (bytes_at mem buf0 (k + 3 * ?w)))) = advanced mem buf0 len0 c0 k'"
      by blast
    have "blocks_loop word blk mem (buf0 + k) (len0 - k) (ucast (crc_bytes c0 (bytes_at mem buf0 k)))
        = blocks_loop word blk mem (buf0 + k + 3 * ?w) (len0 - k - 3 * ?w)
            (ucast (crc_bytes (crc_bytes c0 (bytes_at mem buf0 k)) (bytes_at mem (buf0 + k) (3 * ?w))))"
      using True
      by (subst blocks_loop.simps)
         (simp only: if_True block_step [where f = "\<lambda>b x. blocks_loop word blk mem b (len0 - k - 3 * ?w) x", OF word])
    also have "\<dots> = advanced mem buf0 len0 c0 k'"
      using eq by (simp add: bytes_at_add crc_bytes_append add.assoc)
    finally show ?thesis
      using k' by (intro exI [of _ k']) simp
  next
    case False
    then have "blocks_loop word blk mem (buf0 + k) (len0 - k) (ucast (crc_bytes c0 (bytes_at mem buf0 k)))
      = advanced mem buf0 len0 c0 k"
      by (subst blocks_loop.simps) (simp add: advanced_def)
    with less.prems show ?thesis by blast
  qed
qed

section \<open>Every engine function computes the bit-serial checksum\<close>

lemma finish_ucast: "finish (ucast c) = NOT c"
proof -
  have m: "(0xFFFFFFFF :: u64) = mask 32"
    by (simp add: mask_eq_exp_minus_1)
  show ?thesis
    unfolding finish_def m by (rule bit_eqI) (auto simp add: bit_simps)
qed

lemma upt_0_8: "[0..<8] = [0, 1, 2, 3, 4, 5, 6, 7]"
  by (simp add: upt_rec)

lemma hw_word_eq: "hw_word (ucast c) mem buf = ucast (crc_bytes c (bytes_at mem buf 8))"
  unfolding hw_word_def mm_crc32_u64_def upt_0_8 bytes_at_8
  by (simp add: mm_crc32_u8_eq crc_bytes_def ucast_ucast_32 load64_bytes)

lemma run_1way:
  assumes byte: "\<And>c v. byte (ucast c) v = ucast (crc_byte c v)"
    and word: "\<And>c mem buf. word (ucast c) mem buf = ucast (crc_bytes c (bytes_at mem buf 8))"
  shows "(case align_loop byte mem buf len (ucast c) of (buf1, len1, crc1) \<Rightarrow>
          case words_loop word mem buf1 len1 crc1 of (buf2, len2, crc2) \<Rightarrow>
          case bytes_loop byte mem buf2 len2 crc2 of (buf3, len3, crc3) \<Rightarrow>
          finish crc3) = NOT (crc_bytes c (bytes_at mem buf len))"
proof -
  obtain k1 where k1: "k1 \<le> len"
    and 1: "align_loop byte mem buf len (ucast c) = advanced mem buf len c k1"
    using align_loop_advances [of byte 0 len mem buf c, OF byte]
    by (auto simp add: bytes_at_0 crc_bytes_Nil)
  obtain k2 where k2: "k2 \<le> len"
    and 2: "words_loop word mem (buf + k1) (len - k1) (ucast (crc_bytes c (bytes_at mem buf k1)))
        = advanced mem buf len c k2"
    using words_loop_advances [of word k1 len mem buf c, OF word k1] by blast
  have 3: "bytes_loop byte mem (buf + k2) (len - k2) (ucast (crc_bytes c (bytes_at mem buf k2)))
        = advanced mem buf len c len"
    using byte k2 by (rule bytes_loop_advances)
  show ?thesis
    unfolding 1 by (simp add: advanced_def 2 [unfolded advanced_def] 3 [unfolded advanced_def] finish_ucast)
qed

lemma run_short:
  assumes byte: "\<And>c v. byte (ucast c) v = ucast (crc_byte c v)"
    and word: "\<And>c mem buf. word (ucast c) mem buf = ucast (crc_bytes c (bytes_at mem buf 8))"
  shows "(case align_loop byte mem buf len (ucast c) of (buf1, len1, crc1) \<Rightarrow>
          case blocks_loop word Short mem buf1 len1 crc1 of (buf2, len2, crc2) \<Rightarrow>
          case words_loop word mem buf2 len2 crc2 of (buf3, len3, crc3) \<Rightarrow>
          case bytes_loop byte mem buf3 len3 crc3 of (buf4, len4, crc4) \<Rightarrow>
          finish crc4) = NOT (crc_bytes c (bytes_at mem buf len))"
proof -
  obtain k1 where k1: "k1 \<le> len"
    and 1: "align_loop byte mem buf len (ucast c) = advanced mem buf len c k1"
    using align_loop_advances [of byte 0 len mem buf c, OF byte]
    by (auto simp add: bytes_at_0 crc_bytes_Nil)
  obtain k2 where k2: "k2 \<le> len"
    and 2: "blocks_loop word Short mem (buf + k1) (len - k1) (ucast (crc_bytes c (bytes_at mem buf k1)))
        = advanced mem buf len c k2"
    using blocks_loop_advances [of word k1 len Short mem buf c, OF word k1] by blast
  obtain k3 where k3: "k3 \<le> len"
    and 3: "words_loop word mem (buf + k2) (len - k2) (ucast (crc_bytes c (bytes_at mem buf k2)))
        = advanced mem buf len c k3"
    using words_loop_advances [of word k2 len mem buf c, OF word k2] by blast
  have 4: "bytes_loop byte mem (buf + k3) (len - k3) (ucast (crc_bytes c (bytes_at mem buf k3)))
        = advanced mem buf len c len"
    using byte k3 by (rule bytes_loop_advances)
  show ?thesis
    unfolding 1 by (simp add: advanced_def 2 [unfolded advanced_def] 3 [unfolded advanced_def]
      4 [unfolded advanced_def] finish_ucast)
qed

lemma run_long:
  assumes byte: "\<And>c v. byte (ucast c) v = ucast (crc_byte c v)"
    and word: "\<And>c mem buf. word (ucast c) mem buf = ucast (crc_bytes c (bytes_at mem buf 8))"
  shows "(case align_loop byte mem buf len (ucast c) of (buf1, len1, crc1) \<Rightarrow>
          case blocks_loop word Long mem buf1 len1 crc1 of (buf2, len2, crc2) \<Rightarrow>
          case blocks_loop word Short mem buf2 len2 crc2 of (buf3, len3, crc3) \<Rightarrow>
          case words_loop word mem buf3 len3 crc3 of (buf4, len4, crc4) \<Rightarrow>
          case bytes_loop byte mem buf4 len4 crc4 of (buf5, len5, crc5) \<Rightarrow>
          finish crc5) = NOT (crc_bytes c (bytes_at mem buf len))"
proof -
  obtain k1 where k1: "k1 \<le> len"
    and 1: "align_loop byte mem buf len (ucast c) = advanced mem buf len c k1"
    using align_loop_advances [of byte 0 len mem buf c, OF byte]
    by (auto simp add: bytes_at_0 crc_bytes_Nil)
  obtain k2 where k2: "k2 \<le> len"
    and 2: "blocks_loop word Long mem (buf + k1) (len - k1) (ucast (crc_bytes c (bytes_at mem buf k1)))
        = advanced mem buf len c k2"
    using blocks_loop_advances [of word k1 len Long mem buf c, OF word k1] by blast
  obtain k3 where k3: "k3 \<le> len"
    and 3: "blocks_loop word Short mem (buf + k2) (len - k2) (ucast (crc_bytes c (bytes_at mem buf k2)))
        = advanced mem buf len c k3"
    using blocks_loop_advances [of word k2 len Short mem buf c, OF word k2] by blast
  obtain k4 where k4: "k4 \<le> len"
    and 4: "words_loop word mem (buf + k3) (len - k3) (ucast (crc_bytes c (bytes_at mem buf k3)))
        = advanced mem buf len c k4"
    using words_loop_advances [of word k3 len mem buf c, OF word k3] by blast
  have 5: "bytes_loop byte mem (buf + k4) (len - k4) (ucast (crc_bytes c (bytes_at mem buf k4)))
        = advanced mem buf len c len"
    using byte k4 by (rule bytes_loop_advances)
  show ?thesis
    unfolding 1 by (simp add: advanced_def 2 [unfolded advanced_def] 3 [unfolded advanced_def]
      4 [unfolded advanced_def] 5 [unfolded advanced_def] finish_ucast)
qed

lemma crc32c_sw_1way_eq:
  "crc32c_sw_1way mem buf len crc_in = crc32c_of_bytes crc_in (bytes_at mem buf len)"
  unfolding crc32c_sw_1way_def crc32c_of_bytes_def
  by (rule run_1way) (rule sw_byte_eq sw_inner_eq)+

lemma crc32c_sw_short_block_eq:
  "crc32c_sw_short_block mem buf len crc_in = crc32c_of_bytes crc_in (bytes_at mem buf len)"
proof (cases "len < 3 * SHORT_BLOCK")
  case True
  then show ?thesis
    by (simp add: crc32c_sw_short_block_def crc32c_sw_1way_eq)
next
  case False
  have "(case align_loop sw_byte mem buf len (ucast (NOT crc_in)) of (buf1, len1, crc1) \<Rightarrow>
        case blocks_loop crc32c_sw_inner Short mem buf1 len1 crc1 of (buf2, len2, crc2) \<Rightarrow>
        case words_loop crc32c_sw_inner mem buf2 len2 crc2 of (buf3, len3, crc3) \<Rightarrow>
        case bytes_loop sw_byte mem buf3 len3 crc3 of (buf4, len4, crc4) \<Rightarrow>
        finish crc4) = NOT (crc_bytes (NOT crc_in) (bytes_at mem buf len))"
    by (rule run_short) (rule sw_byte_eq sw_inner_eq)+
  with False show ?thesis
    by (simp only: crc32c_sw_short_block_def crc32c_of_bytes_def if_False)
qed

lemma crc32c_sw_eq:
  "crc32c_sw mem buf len crc_in = crc32c_of_bytes crc_in (bytes_at mem buf len)"
proof (cases "len < 3 * LONG_BLOCK")
  case True
  then show ?thesis
    by (simp add: crc32c_sw_def crc32c_sw_short_block_eq)
next
  case False
  have "(case align_loop sw_byte mem buf len (ucast (NOT crc_in)) of (buf1, len1, crc1) \<Rightarrow>
        case blocks_loop crc32c_sw_inner Long mem buf1 len1 crc1 of (buf2, len2, crc2) \<Rightarrow>
        case blocks_loop crc32c_sw_inner Short mem buf2 len2 crc2 of (buf3, len3, crc3) \<Rightarrow>
        case words_loop crc32c_sw_inner mem buf3 len3 crc3 of (buf4, len4, crc4) \<Rightarrow>
        case bytes_loop sw_byte mem buf4 len4 crc4 of (buf5, len5, crc5) \<Rightarrow>
        finish crc5) = NOT (crc_bytes (NOT crc_in) (bytes_at mem buf len))"
    by (rule run_long) (rule sw_byte_eq sw_inner_eq)+
  with False show ?thesis
    by (simp only: crc32c_sw_def crc32c_of_bytes_def if_False)
qed

lemma crc32c_hw_1way_eq:
  "crc32c_hw_1way mem buf len crc_in = crc32c_of_bytes crc_in (bytes_at mem buf len)"
  unfolding crc32c_hw_1way_def crc32c_of_bytes_def
  by (rule run_1way) (rule hw_byte_eq hw_word_eq)+

lemma crc32c_hw_short_block_eq:
  "crc32c_hw_short_block mem buf len crc_in = crc32c_of_bytes crc_in (bytes_at mem buf len)"
proof (cases "len < 3 * SHORT_BLOCK")
  case True
  then show ?thesis
    by (simp add: crc32c_hw_short_block_def crc32c_hw_1way_eq)
next
  case False
  have "(case align_loop hw_byte mem buf len (ucast (NOT crc_in)) of (buf1, len1, crc1) \<Rightarrow>
        case blocks_loop hw_word Short mem buf1 len1 crc1 of (buf2, len2, crc2) \<Rightarrow>
        case words_loop hw_word mem buf2 len2 crc2 of (buf3, len3, crc3) \<Rightarrow>
        case bytes_loop hw_byte mem buf3 len3 crc3 of (buf4, len4, crc4) \<Rightarrow>
        finish crc4) = NOT (crc_bytes (NOT crc_in) (bytes_at mem buf len))"
    by (rule run_short) (rule hw_byte_eq hw_word_eq)+
  with False show ?thesis
    by (simp only: crc32c_hw_short_block_def crc32c_of_bytes_def if_False)
qed

lemma crc32c_hw_eq:
  "crc32c_hw mem buf len crc_in = crc32c_of_bytes crc_in (bytes_at mem buf len)"
proof (cases "len < 3 * LONG_BLOCK")
  case True
  then show ?thesis
    by (simp add: crc32c_hw_def crc32c_hw_short_block_eq)
next
  case False
  have "(case align_loop hw_byte mem buf len (ucast (NOT crc_in)) of (buf1, len1, crc1) \<Rightarrow>
        case blocks_loop hw_word Long mem buf1 len1 crc1 of (buf2, len2, crc2) \<Rightarrow>
        case blocks_loop hw_word Short mem buf2 len2 crc2 of (buf3, len3, crc3) \<Rightarrow>
        case words_loop hw_word mem buf3 len3 crc3 of (buf4, len4, crc4) \<Rightarrow>
        case bytes_loop hw_byte mem buf4 len4 crc4 of (buf5, len5, crc5) \<Rightarrow>
        finish crc5) = NOT (crc_bytes (NOT crc_in) (bytes_at mem buf len))"
    by (rule run_long) (rule hw_byte_eq hw_word_eq)+
  with False show ?thesis
    by (simp only: crc32c_hw_def crc32c_of_bytes_def if_False)
qed

lemma crc32c_eq:
  "crc32c registers2 mem buf len crc_in = crc32c_of_bytes crc_in (bytes_at mem buf len)"
  by (simp add: crc32c_def setup_crc32c_def crc32c_sw_eq crc32c_hw_eq)

section \<open>Evaluating the checksum of a concrete byte sequence\<close>

lemma crc_bytes_Cons: "crc_bytes c (b # bs) = crc_bytes (zero_byte (c XOR ucast b)) bs"
  by (simp add: crc_bytes_def crc_byte_def)

lemma crc32c_of_bytes_0: "crc32c_of_bytes 0 bs = crc_bytes 0xFFFFFFFF bs XOR 0xFFFFFFFF"
proof -
  have m: "(0xFFFFFFFF :: u32) = mask 32"
    by (simp add: mask_eq_exp_minus_1)
  have "NOT x = x XOR 0xFFFFFFFF" for x :: u32
    unfolding m by (rule bit_eqI) (auto simp add: bit_simps)
  moreover have "NOT (0 :: u32) = 0xFFFFFFFF"
    by simp
  ultimately show ?thesis
    by (simp only: crc32c_of_bytes_def)
qed

lemma vector_zeros: "crc32c_of_bytes 0 (replicate 32 0x00) = 0x8A9136AA"
proof -
  have "replicate 32 (0 :: u8) =
      [0, 0, 0, 0, 0, 0, 0, 0, 0, 0, 0, 0, 0, 0, 0, 0, 0, 0, 0, 0, 0, 0, 0, 0, 0, 0, 0, 0, 0, 0, 0, 0]"
    by (simp add: eval_nat_numeral)
  then show ?thesis
    by (simp add: crc32c_of_bytes_0 crc_bytes_Cons crc_bytes_Nil zero_byte_unfold crc_bit_def)
qed

lemma vector_ones: "crc32c_of_bytes 0 (replicate 32 0xFF) = 0x62A8AB43"
proof -
  have "replicate 32 (0xFF :: u8) =
      [255, 255, 255, 255, 255, 255, 255, 255, 255, 255, 255, 255, 255, 255, 255, 255,
       255, 255, 255, 255, 255, 255, 255, 255, 255, 255, 255, 255, 255, 255, 255, 255]"
    by (simp add: eval_nat_numeral)
  then show ?thesis
    by (simp add: crc32c_of_bytes_0 crc_bytes_Cons crc_bytes_Nil zero_byte_unfold crc_bit_def)
qed

lemma vector_up: "crc32c_of_bytes 0 (map of_nat [0..<32]) = 0x46DD794E"
proof -
  have "map of_nat [0..<32] =
      [0, 1, 2, 3, 4, 5, 6, 7, 8, 9, 10, 11, 12, 13, 14, 15,
       16, 17, 18, 19, 20, 21, 22, 23, 24, 25, 26, 27, 28, 29, 30, 31 :: u8]"
    by (simp add: upt_rec)
  then show ?thesis
    by (simp add: crc32c_of_bytes_0 crc_bytes_Cons crc_bytes_Nil zero_byte_unfold crc_bit_def)
qed

lemma vector_down: "crc32c_of_bytes 0 (map (\<lambda>i. of_nat (31 - i)) [0..<32]) = 0x113FDB5C"
proof -
  have "map (\<lambda>i. of_nat (31 - i)) [0..<32] =
      [31, 30, 29, 28, 27, 26, 25, 24, 23, 22, 21, 20, 19, 18, 17, 16,
       15, 14, 13, 12, 11, 10, 9, 8, 7, 6, 5, 4, 3, 2, 1, 0 :: u8]"
    by (simp add: upt_rec)
  then show ?thesis
    by (simp add: crc32c_of_bytes_0 crc_bytes_Cons crc_bytes_Nil zero_byte_unfold crc_bit_def)
qed

lemma crc32c_of_bytes_Nil: "crc32c_of_bytes seed [] = seed"
  by (simp add: crc32c_of_bytes_def crc_bytes_Nil)

lemma crc32c_of_bytes_append:
  "crc32c_of_bytes seed (xs @ ys) = crc32c_of_bytes (crc32c_of_bytes seed xs) ys"
  by (simp add: crc32c_of_bytes_def crc_bytes_append)

section \<open>Properties of the specification\<close>

subsection \<open>The zero operator\<close>

text \<open>
  C6, as the code has it: for every length \<open>len \<ge> 1\<close>, with \<open>2 ^ k\<close> the largest power
  of two not above \<open>len\<close>, \<^verbatim>\<open>crc32c_zeros_op\<close> returns a matrix of 32 rows that
  maps every register to its state after appending \<open>2 ^ k\<close> zero bytes. For a power of
  two, such as \<^verbatim>\<open>LONG_BLOCK = 8192\<close> and \<^verbatim>\<open>SHORT_BLOCK = 256\<close>, that is the
  operator for \<open>len\<close> zero bytes; for any other length it is the operator of the next
  lower power of two, as the comment above the function says.
\<close>

theorem zeros_op_power_of_two:
  assumes "2 ^ k \<le> len" and "len < 2 ^ Suc k"
  shows "length (crc32c_zeros_op len) = 32 \<and>
         gf2_matrix_times (crc32c_zeros_op len) crc = crc_bytes crc (replicate (2 ^ k) 0)"
  using assms by (simp add: length_crc32c_zeros_op crc32c_zeros_op_represents crc_bytes_zeros)

theorem zeros_op_power_of_two_witness:
  "(2::nat) ^ 8 \<le> 256 \<and> (256::nat) < 2 ^ Suc 8 \<and> length (crc32c_zeros_op 256) = 32 \<and>
   gf2_matrix_times (crc32c_zeros_op 256) 1 = crc_bytes 1 (replicate (2 ^ 8) 0)"
proof -
  have lo: "(2::nat) ^ 8 \<le> 256" and hi: "(256::nat) < 2 ^ Suc 8"
    by simp_all
  from zeros_op_power_of_two [OF lo hi, of 1] lo hi show ?thesis
    by blast
qed

text \<open>
  C6 as stated fails at a length that is no power of two: for length 3 the matrix applied
  to the register 1 is not the register after three zero bytes (it is the register after
  two).
\<close>

theorem zeros_op_not_three_bytes:
  "gf2_matrix_times (crc32c_zeros_op 3) 1 \<noteq> crc_bytes 1 (replicate 3 0)"
proof -
  have "gf2_matrix_times (crc32c_zeros_op 3) 1 = (zero_byte ^^ (2 ^ 1)) 1"
    by (rule crc32c_zeros_op_represents) simp_all
  moreover have "crc_bytes 1 (replicate 3 0) = (zero_byte ^^ 3) 1"
    by (rule crc_bytes_zeros)
  moreover have "zero_byte (zero_byte 1) \<noteq> zero_byte (zero_byte (zero_byte 1))"
    by (simp add: zero_byte_unfold crc_bit_def)
  ultimately show ?thesis
    by (simp add: zero_byte_pows)
qed

text \<open>
  C7: \<^verbatim>\<open>crc32c_zeros_op\<close> called with length 0 produces exactly the matrix it produces
  for length 1, and that matrix is the operator for a single zero byte.
\<close>

theorem zeros_op_zero_length:
  "crc32c_zeros_op 0 = crc32c_zeros_op 1 \<and>
   gf2_matrix_times (crc32c_zeros_op 1) crc = crc_bytes crc [0]"
proof
  have "zeros_op_loop odd0 0 = gf2_matrix_square odd0" for odd0
    by (subst zeros_op_loop.simps) simp
  moreover have "zeros_op_loop odd0 1 = gf2_matrix_square odd0" for odd0
    by (subst zeros_op_loop.simps) simp
  ultimately show "crc32c_zeros_op 0 = crc32c_zeros_op 1"
    by (simp add: crc32c_zeros_op_def Let_def)
  have "gf2_matrix_times (crc32c_zeros_op 1) crc = (zero_byte ^^ (2 ^ 0)) crc"
    by (rule crc32c_zeros_op_represents) simp_all
  then show "gf2_matrix_times (crc32c_zeros_op 1) crc = crc_bytes crc [0]"
    by (simp add: crc_bytes_def crc_byte_def)
qed

subsection \<open>Shift tables\<close>

text \<open>
  C8: for every operator matrix \<open>op\<close> of 32 rows and every 32-bit value \<open>crc\<close>, the four
  lookups of \<^verbatim>\<open>crc32c_shift\<close> in the table that the loop of \<^verbatim>\<open>crc32c_zeros\<close>
  builds from \<open>op\<close> give the matrix-vector product \<^verbatim>\<open>gf2_matrix_times(op, crc)\<close>.
\<close>

theorem shift_table_applies_operator:
  assumes "length op = 32"
  shows "crc32c_shift (zeros_table op) crc = gf2_matrix_times op crc"
  by (rule crc32c_shift_zeros_table)

theorem shift_table_applies_operator_witness:
  "length (map (\<lambda>n. push_bit n (1 :: u32)) [0..<32]) = 32 \<and>
   crc32c_shift (zeros_table (map (\<lambda>n. push_bit n 1) [0..<32])) 0xDEADBEEF =
   gf2_matrix_times (map (\<lambda>n. push_bit n 1) [0..<32]) 0xDEADBEEF"
proof -
  have len: "length (map (\<lambda>n. push_bit n (1 :: u32)) [0..<32]) = 32"
    by simp
  from shift_table_applies_operator [OF len, of "0xDEADBEEF"] len show ?thesis
    by blast
qed

subsection \<open>The word fold of the software engine\<close>

text \<open>
  C10: for every 64-bit accumulator whose upper 32 bits are zero and every group of eight
  bytes, \<^verbatim>\<open>crc32c_sw_inner\<close> returns what the single-byte table step returns when it
  is applied to the eight bytes in memory order, and the upper 32 bits of the result are
  zero again.
\<close>

theorem sw_inner_is_eight_byte_steps:
  assumes "drop_bit 32 crc = 0"
  shows "crc32c_sw_inner crc mem buf = fold (\<lambda>b c. sw_byte c b) (bytes_at mem buf 8) crc \<and>
         drop_bit 32 (crc32c_sw_inner crc mem buf) = 0"
proof -
  from assms have "crc = ucast (ucast crc :: u32)"
    by (simp add: upper_zero_ucast)
  then obtain c :: u32 where c: "crc = ucast c" ..
  show ?thesis
    unfolding c by (simp add: sw_inner_eq fold_sw_byte drop_bit_32_ucast)
qed

theorem sw_inner_is_eight_byte_steps_witness:
  "drop_bit 32 (0x12345678 :: u64) = 0 \<and>
   crc32c_sw_inner 0x12345678 (\<lambda>a. of_nat a) 0 =
     fold (\<lambda>b c. sw_byte c b) (bytes_at (\<lambda>a. of_nat a) 0 8) 0x12345678 \<and>
   drop_bit 32 (crc32c_sw_inner 0x12345678 (\<lambda>a. of_nat a) 0) = 0"
proof -
  have h: "drop_bit 32 (0x12345678 :: u64) = 0"
    by simp
  from sw_inner_is_eight_byte_steps [OF h, of "\<lambda>a. of_nat a" 0] h show ?thesis
    by blast
qed

subsection \<open>The public operation\<close>

text \<open>
  C1: with seed 0, whichever engine the dispatcher has chosen, \<^verbatim>\<open>crc32c\<close> returns
  \<^verbatim>\<open>0x8A9136AA\<close> for 32 bytes of \<^verbatim>\<open>0x00\<close>, \<^verbatim>\<open>0x62A8AB43\<close> for 32 bytes of
  \<^verbatim>\<open>0xFF\<close>, \<^verbatim>\<open>0x46DD794E\<close> for the bytes \<^verbatim>\<open>0x00, 0x01, ..., 0x1F\<close> and
  \<^verbatim>\<open>0x113FDB5C\<close> for the bytes \<^verbatim>\<open>0x1F, 0x1E, ..., 0x00\<close>, wherever the buffers lie.
\<close>

theorem known_vectors:
  assumes "bytes_at m0 b0 32 = replicate 32 0x00"
    and "bytes_at m1 b1 32 = replicate 32 0xFF"
    and "bytes_at m2 b2 32 = map of_nat [0..<32]"
    and "bytes_at m3 b3 32 = map (\<lambda>i. of_nat (31 - i)) [0..<32]"
  shows "crc32c registers2 m0 b0 32 0 = 0x8A9136AA \<and>
         crc32c registers2 m1 b1 32 0 = 0x62A8AB43 \<and>
         crc32c registers2 m2 b2 32 0 = 0x46DD794E \<and>
         crc32c registers2 m3 b3 32 0 = 0x113FDB5C"
  unfolding crc32c_eq assms
  by (simp only: vector_zeros vector_ones vector_up vector_down)

theorem known_vectors_witness:
  "bytes_at (\<lambda>a. 0x00) 0 32 = replicate 32 0x00 \<and>
   bytes_at (\<lambda>a. 0xFF) 1 32 = replicate 32 0xFF \<and>
   bytes_at (\<lambda>a. of_nat (a - 5)) 5 32 = map of_nat [0..<32] \<and>
   bytes_at (\<lambda>a. of_nat (38 - a)) 7 32 = map (\<lambda>i. of_nat (31 - i)) [0..<32] \<and>
   crc32c 0 (\<lambda>a. 0x00) 0 32 0 = 0x8A9136AA \<and>
   crc32c 0 (\<lambda>a. 0xFF) 1 32 0 = 0x62A8AB43 \<and>
   crc32c 0 (\<lambda>a. of_nat (a - 5)) 5 32 0 = 0x46DD794E \<and>
   crc32c 0 (\<lambda>a. of_nat (38 - a)) 7 32 0 = 0x113FDB5C"
proof -
  have 0: "bytes_at (\<lambda>a. 0x00) 0 32 = replicate 32 0x00"
    by (simp add: bytes_at_def map_replicate_const)
  have 1: "bytes_at (\<lambda>a. 0xFF) 1 32 = replicate 32 0xFF"
    by (simp add: bytes_at_def map_replicate_const)
  have 2: "bytes_at (\<lambda>a. of_nat (a - 5)) 5 32 = map of_nat [0..<32]"
    by (simp add: bytes_at_def upt_rec)
  have 3: "bytes_at (\<lambda>a. of_nat (38 - a)) 7 32 = map (\<lambda>i. of_nat (31 - i)) [0..<32]"
    by (simp add: bytes_at_def upt_rec)
  from known_vectors [OF 0 1 2 3, of 0] 0 1 2 3 show ?thesis
    by blast
qed

text \<open>
  C2: for every seed and every buffer, a call with length 0 returns the seed unchanged;
  this holds for the public \<^verbatim>\<open>crc32c\<close> under either engine and for the two
  single-lane functions.
\<close>

theorem zero_length_is_identity:
  "crc32c registers2 mem buf 0 seed = seed \<and>
   crc32c_sw_1way mem buf 0 seed = seed \<and>
   crc32c_hw_1way mem buf 0 seed = seed"
  by (simp add: crc32c_eq crc32c_sw_1way_eq crc32c_hw_1way_eq bytes_at_0 crc32c_of_bytes_Nil)

text \<open>
  C3: for every seed, if a buffer of \<open>len1 + len2\<close> bytes holds the bytes of \<open>buf1\<close>
  followed by the bytes of \<open>buf2\<close>, then checksumming \<open>buf2\<close> from the checksum of
  \<open>buf1\<close> gives the checksum of the whole buffer, for all lengths and buffer addresses.
\<close>

theorem streaming_composes:
  assumes "bytes_at mem buf (len1 + len2) = bytes_at mem1 buf1 len1 @ bytes_at mem2 buf2 len2"
  shows "crc32c registers2 mem2 buf2 len2 (crc32c registers2 mem1 buf1 len1 seed) =
         crc32c registers2 mem buf (len1 + len2) seed"
  by (simp add: crc32c_eq assms crc32c_of_bytes_append)

theorem streaming_composes_witness:
  "bytes_at (\<lambda>a. of_nat a) 3 (767 + 24577) =
     bytes_at (\<lambda>a. of_nat a) 3 767 @ bytes_at (\<lambda>a. of_nat a) 770 24577 \<and>
   crc32c 0 (\<lambda>a. of_nat a) 770 24577 (crc32c 0 (\<lambda>a. of_nat a) 3 767 0xFFFFFFFF) =
     crc32c 0 (\<lambda>a. of_nat a) 3 (767 + 24577) 0xFFFFFFFF"
proof -
  have h: "bytes_at (\<lambda>a. of_nat a) 3 (767 + 24577) =
     bytes_at (\<lambda>a. of_nat a) 3 767 @ bytes_at (\<lambda>a. of_nat a) 770 24577"
    using bytes_at_add [of "\<lambda>a. of_nat a" 3 767 24577] by simp
  from streaming_composes [OF h, of 0 "0xFFFFFFFF"] h show ?thesis
    by blast
qed

text \<open>
  C9: for every length and seed, two runs of \<^verbatim>\<open>crc32c\<close> over the same bytes return
  the same result wherever the two buffers start, in particular at addresses with
  different residues modulo 8.
\<close>

theorem alignment_invariance:
  assumes "bytes_at mem1 buf1 len = bytes_at mem2 buf2 len"
  shows "crc32c registers2 mem1 buf1 len seed = crc32c registers2 mem2 buf2 len seed"
  by (simp add: crc32c_eq assms)

theorem alignment_invariance_witness:
  "bytes_at (\<lambda>a. of_nat a) 8 100 = bytes_at (\<lambda>a. of_nat (a + 5)) 3 100 \<and>
   crc32c 0 (\<lambda>a. of_nat a) 8 100 7 = crc32c 0 (\<lambda>a. of_nat (a + 5)) 3 100 7"
proof -
  have h: "bytes_at (\<lambda>a. of_nat a) 8 100 = bytes_at (\<lambda>a. of_nat (a + 5)) 3 100"
    unfolding bytes_at_def by (rule nth_equalityI) (simp_all add: add_ac)
  from alignment_invariance [OF h, of 0 7] h show ?thesis
    by blast
qed

subsection \<open>The engines against each other\<close>

text \<open>
  C4: for every buffer, length and seed, at every buffer address, the software engine
  \<^verbatim>\<open>crc32c_sw\<close> and the hardware engine \<^verbatim>\<open>crc32c_hw\<close> return the same 32-bit
  result.
\<close>

theorem engines_agree:
  "crc32c_sw mem buf len seed = crc32c_hw mem buf len seed"
  by (simp add: crc32c_sw_eq crc32c_hw_eq)

text \<open>
  C5: for every buffer, length and seed, the 3-lane functions \<^verbatim>\<open>crc32c_sw\<close> (long and
  short blocks) and \<^verbatim>\<open>crc32c_sw_short_block\<close> (short blocks), which combine the lanes
  of each block through the shift table of the block width, return what the single-lane
  \<^verbatim>\<open>crc32c_sw_1way\<close> returns.
\<close>

theorem three_lanes_match_one_way:
  "crc32c_sw mem buf len seed = crc32c_sw_1way mem buf len seed \<and>
   crc32c_sw_short_block mem buf len seed = crc32c_sw_1way mem buf len seed"
  by (simp add: crc32c_sw_eq crc32c_sw_short_block_eq crc32c_sw_1way_eq)

end
